theory Spec2Isabelle
  imports Main "HOL-Library.Word"
begin

section \<open>Data model of the UDP engine\<close>

text \<open>
  The model follows \<^verbatim>\<open>src/udp_engine.cpp\<close>. A byte (\<^verbatim>\<open>unsigned char\<close>, and the
  \<^verbatim>\<open>char\<close> of the address strings) is a \<^typ>\<open>char\<close>: eight bits, read as a number
  in 0..255 by \<^const>\<open>of_char\<close>.
\<close>

type_synonym byte = char

text \<open>A message: its payload and the \<^verbatim>\<open>msg_t::more\<close> flag.\<close>

record msg_t =
  data :: "byte list"
  flag_more :: bool

definition msg_init :: msg_t where
  "msg_init = \<lparr>data = [], flag_more = False\<rparr>"

datatype errno_t = EAGAIN | EBADF | EFAULT | EINTR | EINVAL | ENOMEM | ENOTSOCK | ENETDOWN

datatype family_t = AF_UNSPEC | AF_INET | AF_INET6

text \<open>
  \<^verbatim>\<open>struct sockaddr_in\<close>. The port is kept as stored, in network byte order. The
  address is kept as the number whose big-endian bytes are the four bytes of
  \<^verbatim>\<open>sin_addr\<close> in memory, so \<^verbatim>\<open>A.B.C.D\<close> is \<open>A * 2^24 + B * 2^16 + C * 2^8 + D\<close>.
\<close>

record sockaddr_in =
  sin_family :: family_t
  sin_port :: "16 word"
  sin_addr :: "32 word"

text \<open>What a handler does when it stops: it returns, an assertion
  (\<^verbatim>\<open>zmq_assert\<close>, \<^verbatim>\<open>errno_assert\<close>) ends the process, or the C++ has no defined
  behaviour (a null session, a copy past the end of a fixed buffer, a message read
  that was never filled).\<close>

datatype outcome = Returns | Aborts | Undefined

text \<open>
  Modelled from the spec: \<^verbatim>\<open>ip_addr_t\<close> and the resolved UDP address are declared
  outside \<^verbatim>\<open>udp_engine.cpp\<close>. An address has a family, the address bits and a
  port; \<^verbatim>\<open>ip_addr_t::any\<close> is the wildcard address of a family (all bits zero) with
  port 0, \<^verbatim>\<open>set_port\<close> stores a port and \<^verbatim>\<open>port\<close> reads it. The resolved address
  is the pair of bind and target address with the multicast flag and the interface
  index.
\<close>

record ip_addr_t =
  ip_family :: family_t
  ip_host :: "128 word"
  ip_port :: "16 word"

definition any :: "family_t \<Rightarrow> ip_addr_t" where
  "any f = \<lparr>ip_family = f, ip_host = 0, ip_port = 0\<rparr>"

definition set_port :: "16 word \<Rightarrow> ip_addr_t \<Rightarrow> ip_addr_t" where
  "set_port p a = a\<lparr>ip_port := p\<rparr>"

definition port :: "ip_addr_t \<Rightarrow> 16 word" where
  "port a = ip_port a"

definition is_multicast :: "ip_addr_t \<Rightarrow> bool" where
  "is_multicast a =
     (case ip_family a of
        AF_INET \<Rightarrow> drop_bit 28 (take_bit 32 (ip_host a)) = 14
      | AF_INET6 \<Rightarrow> drop_bit 120 (ip_host a) = 255
      | AF_UNSPEC \<Rightarrow> False)"

record udp_address_t =
  bind_addr :: ip_addr_t
  target_addr :: ip_addr_t
  is_mcast :: bool
  bind_if :: int

record options_t =
  raw_socket :: bool
  bound_device :: string
  multicast_loop :: bool

text \<open>Where \<^verbatim>\<open>out_address\<close> points: nowhere yet, at the resolved target address, or
  at the engine's own \<^verbatim>\<open>raw_address\<close> (then a later write to \<^verbatim>\<open>raw_address\<close> is
  what \<^verbatim>\<open>sendto\<close> sees).\<close>

datatype out_ptr = Out_null | Out_target | Out_raw

datatype dest = Dest_ip ip_addr_t | Dest_raw sockaddr_in | Dest_null

datatype sockopt =
    SO_REUSEADDR
  | IP_MULTICAST_LOOP bool
  | IPV6_MULTICAST_LOOP bool
  | IP_ADD_MEMBERSHIP "128 word" "128 word"
  | IPV6_ADD_MEMBERSHIP "128 word" "32 word"

text \<open>Everything the engine does to its collaborators, in order: the calls on the
  session (\<^verbatim>\<open>pull_msg\<close> with what it handed over, \<^verbatim>\<open>push_msg\<close> with the message and
  whether it was accepted, \<^verbatim>\<open>flush\<close>, \<^verbatim>\<open>reset\<close>), the messages it closes, and the
  calls on the poller and the socket.\<close>

datatype event =
    Pull_msg "msg_t option"
  | Push_msg msg_t bool
  | Flush
  | Reset
  | Close msg_t
  | Add_fd
  | Rm_fd
  | Bind_to_device string
  | Setsockopt sockopt
  | Bind ip_addr_t
  | Sendto "byte list" dest

text \<open>
  Modelled from the spec: the session (\<^verbatim>\<open>session_base_t\<close>) is declared outside
  \<^verbatim>\<open>udp_engine.cpp\<close>; the engine only calls its non-blocking \<^verbatim>\<open>pull_msg\<close>,
  \<^verbatim>\<open>push_msg\<close>, \<^verbatim>\<open>flush\<close> and \<^verbatim>\<open>reset\<close>. It is a test double here: it hands over
  the messages of \<open>pipe_out\<close> in order and then reports \<^verbatim>\<open>EAGAIN\<close>; it accepts or
  rejects (\<^verbatim>\<open>EAGAIN\<close>, queue full) a pushed message as \<open>accepts\<close> decides from all
  that happened so far and the message.
\<close>

record session_t =
  pipe_out :: "msg_t list"
  accepts :: "event list \<Rightarrow> msg_t \<Rightarrow> bool"

text \<open>The engine. The two buffers are the arrays of \<^verbatim>\<open>MAX_UDP_MSG\<close> bytes; the
  constant is declared outside this file, so the capacity is the length of the list.
  \<open>pollin\<close> and \<open>pollout\<close> are the read and write interest registered with the
  poller for the engine's handle.\<close>

record engine =
  plugged :: bool
  session :: "session_t option"
  address :: "udp_address_t option"
  options :: options_t
  send_enabled :: bool
  recv_enabled :: bool
  raw_address :: sockaddr_in
  out_address :: out_ptr
  out_buffer :: "byte list"
  in_buffer :: "byte list"
  pollin :: bool
  pollout :: bool
  trace :: "event list"

definition emit :: "event \<Rightarrow> engine \<Rightarrow> engine" where
  "emit ev e = e\<lparr>trace := trace e @ [ev]\<rparr>"

section \<open>Session and poller calls\<close>

text \<open>
  Modelled from the spec: the calls below belong to the session, to \<^verbatim>\<open>msg_t\<close> and to
  the poller (\<^verbatim>\<open>io_object_t\<close>), all declared outside \<^verbatim>\<open>udp_engine.cpp\<close>. Each one
  does what its interface says and nothing else: a session call and a close are
  recorded in the trace, a poller call switches the read or write interest.
\<close>

text \<open>\<^verbatim>\<open>session->pull_msg\<close>: the next message of the pipe, or nothing (\<^verbatim>\<open>EAGAIN\<close>).\<close>

definition pull_msg :: "session_t \<Rightarrow> engine \<Rightarrow> msg_t option \<times> session_t \<times> engine" where
  "pull_msg s e =
     (case pipe_out s of
        [] \<Rightarrow> (None, s, emit (Pull_msg None) e)
      | m # ms \<Rightarrow>
          (let s' = s\<lparr>pipe_out := ms\<rparr>
           in (Some m, s', emit (Pull_msg (Some m)) (e\<lparr>session := Some s'\<rparr>))))"

text \<open>\<^verbatim>\<open>session->push_msg\<close>: an accepted message moves into the pipe and the caller's
  \<^verbatim>\<open>msg_t\<close> is left freshly initialised; a rejected one stays with the caller.\<close>

definition push_msg :: "session_t \<Rightarrow> msg_t \<Rightarrow> engine \<Rightarrow> bool \<times> msg_t \<times> engine" where
  "push_msg s m e =
     (let ok = accepts s (trace e) m
      in (ok, if ok then msg_init else m, emit (Push_msg m ok) e))"

definition msg_close :: "msg_t \<Rightarrow> engine \<Rightarrow> engine" where
  "msg_close m e = emit (Close m) e"

definition session_flush :: "engine \<Rightarrow> engine" where
  "session_flush e = emit Flush e"

definition session_reset :: "engine \<Rightarrow> engine" where
  "session_reset e = emit Reset e"

definition set_pollin :: "engine \<Rightarrow> engine" where
  "set_pollin e = e\<lparr>pollin := True\<rparr>"

definition reset_pollin :: "engine \<Rightarrow> engine" where
  "reset_pollin e = e\<lparr>pollin := False\<rparr>"

definition set_pollout :: "engine \<Rightarrow> engine" where
  "set_pollout e = e\<lparr>pollout := True\<rparr>"

definition reset_pollout :: "engine \<Rightarrow> engine" where
  "reset_pollout e = e\<lparr>pollout := False\<rparr>"

section \<open>The C library calls of the raw endpoint codec\<close>

text \<open>
  \<^verbatim>\<open>sockaddr_to_msg\<close> and \<^verbatim>\<open>resolve_raw_address\<close> are written with \<^verbatim>\<open>inet_ntoa\<close>,
  \<^verbatim>\<open>sprintf\<close>, \<^verbatim>\<open>atoi\<close>, \<^verbatim>\<open>inet_addr\<close>, \<^verbatim>\<open>htons\<close> and \<^verbatim>\<open>ntohs\<close>. They are modelled
  as the C library documents them, with glibc on a 64-bit little-endian machine
  where the standard leaves a choice.
\<close>

definition NUL :: char where
  "NUL = CHR 0x00"

definition isdigit :: "char \<Rightarrow> bool" where
  "isdigit c = (48 \<le> (of_char c :: nat) \<and> (of_char c :: nat) \<le> 57)"

definition isspace :: "char \<Rightarrow> bool" where
  "isspace c = ((of_char c :: nat) = 32 \<or> 9 \<le> (of_char c :: nat) \<and> (of_char c :: nat) \<le> 13)"

text \<open>A \<^verbatim>\<open>std::string\<close> read through \<^verbatim>\<open>c_str ()\<close> ends at its first NUL.\<close>

definition c_str :: "string \<Rightarrow> string" where
  "c_str s = takeWhile (\<lambda>c. c \<noteq> NUL) s"

definition digit_char :: "nat \<Rightarrow> char" where
  "digit_char d = char_of (48 + d)"

text \<open>\<^verbatim>\<open>sprintf ("%d", n)\<close> for a number that is not negative.\<close>

function dec_str :: "nat \<Rightarrow> string" where
  "dec_str n = (if n < 10 then [digit_char n] else dec_str (n div 10) @ [digit_char (n mod 10)])"
  by pat_completeness auto
termination
  by (relation "measure (\<lambda>n. n)") auto

declare dec_str.simps [simp del]

text \<open>\<^verbatim>\<open>htons\<close> and \<^verbatim>\<open>ntohs\<close> swap the two bytes of a 16-bit value.\<close>

definition htons :: "16 word \<Rightarrow> 16 word" where
  "htons x = or (push_bit 8 x) (drop_bit 8 x)"

definition ntohs :: "16 word \<Rightarrow> 16 word" where
  "ntohs x = or (push_bit 8 x) (drop_bit 8 x)"

text \<open>\<^verbatim>\<open>inet_ntoa\<close>: the four bytes of the address in decimal, with dots.\<close>

definition inet_ntoa :: "32 word \<Rightarrow> string" where
  "inet_ntoa a =
     dec_str (unat a div 2 ^ 24) @ ''.'' @ dec_str (unat a div 2 ^ 16 mod 256) @ ''.'' @
     dec_str (unat a div 2 ^ 8 mod 256) @ ''.'' @ dec_str (unat a mod 256)"

text \<open>The value of a character as a digit of the base, if it is one.\<close>

definition digit_of :: "nat \<Rightarrow> char \<Rightarrow> nat option" where
  "digit_of base c =
     (let k = (of_char c :: nat);
          v = (if 48 \<le> k \<and> k \<le> 57 then k - 48
               else if 97 \<le> k \<and> k \<le> 122 then k - 87
               else if 65 \<le> k \<and> k \<le> 90 then k - 55
               else base)
      in if v < base then Some v else None)"

text \<open>The digit loop of \<^verbatim>\<open>strtol\<close> and \<^verbatim>\<open>strtoul\<close>: the value read so far and the
  rest of the text, from the first character that is no digit of the base.\<close>

fun strto_digits :: "nat \<Rightarrow> nat \<Rightarrow> string \<Rightarrow> nat \<times> string" where
  "strto_digits base acc [] = (acc, [])"
| "strto_digits base acc (c # cs) =
     (case digit_of base c of
        None \<Rightarrow> (acc, c # cs)
      | Some d \<Rightarrow> strto_digits base (acc * base + d) cs)"

text \<open>\<^verbatim>\<open>strtoul (cp, &endp, 0)\<close> on a text that starts with a digit: \<^verbatim>\<open>0x\<close> or \<^verbatim>\<open>0X\<close>
  and a hexadecimal digit start a hexadecimal number, another leading \<^verbatim>\<open>0\<close> an octal
  one, everything else is decimal. The value is not yet cut to \<^verbatim>\<open>unsigned long\<close>.\<close>

definition hex_prefix :: "string \<Rightarrow> bool" where
  "hex_prefix cp =
     (case cp of
        c0 # x # h # rest \<Rightarrow>
          c0 = CHR ''0'' \<and> (x = CHR ''x'' \<or> x = CHR ''X'') \<and> digit_of 16 h \<noteq> None
      | _ \<Rightarrow> False)"

definition strtoul0 :: "string \<Rightarrow> nat \<times> string" where
  "strtoul0 cp =
     (if hex_prefix cp then strto_digits 16 0 (drop 2 cp)
      else if cp \<noteq> [] \<and> hd cp = CHR ''0'' then strto_digits 8 0 cp
      else strto_digits 10 0 cp)"

text \<open>\<^verbatim>\<open>inet_aton\<close>: up to four numbers separated by dots; all but the last are
  one byte each, the last fills the remaining bytes; after the last number only the
  end of the text or white space may follow. \<open>pp\<close> holds the bytes stored so
  far.\<close>

definition inet_aton_max :: "nat \<Rightarrow> nat" where
  "inet_aton_max k = (if k = 0 then 0xffffffff else if k = 1 then 0xffffff
                      else if k = 2 then 0xffff else 0xff)"

definition inet_aton_word :: "nat list \<Rightarrow> nat \<Rightarrow> 32 word" where
  "inet_aton_word pp val =
     of_nat ((case pp of
                [] \<Rightarrow> 0
              | [a] \<Rightarrow> a * 2 ^ 24
              | [a, b] \<Rightarrow> a * 2 ^ 24 + b * 2 ^ 16
              | a # b # c # _ \<Rightarrow> a * 2 ^ 24 + b * 2 ^ 16 + c * 2 ^ 8) + val)"

function inet_aton_loop :: "nat list \<Rightarrow> string \<Rightarrow> 32 word option" where
  "inet_aton_loop pp cp =
     (case cp of
        [] \<Rightarrow> None
      | c # _ \<Rightarrow>
          if \<not> isdigit c then None
          else
            (case strtoul0 cp of
               (ul, endp) \<Rightarrow>
                 if ul > 0xffffffff then None
                 else
                   (case endp of
                      [] \<Rightarrow>
                        if ul > inet_aton_max (length pp) then None
                        else Some (inet_aton_word pp ul)
                    | d # cp' \<Rightarrow>
                        if d = CHR ''.'' then
                          (if length pp > 2 \<or> ul > 0xff then None
                           else inet_aton_loop (pp @ [ul]) cp')
                        else if \<not> isspace d then None
                        else if ul > inet_aton_max (length pp) then None
                        else Some (inet_aton_word pp ul))))"
  by pat_completeness auto
termination
  by (relation "measure (\<lambda>(pp, cp). 3 - length pp)") auto

declare inet_aton_loop.simps [simp del]

definition INADDR_NONE :: "32 word" where
  "INADDR_NONE = 0xffffffff"

text \<open>\<^verbatim>\<open>inet_addr\<close>: the address, or \<^verbatim>\<open>INADDR_NONE\<close> for a text that is none.\<close>

definition inet_addr :: "string \<Rightarrow> 32 word" where
  "inet_addr cp = (case inet_aton_loop [] cp of None \<Rightarrow> INADDR_NONE | Some a \<Rightarrow> a)"

text \<open>\<^verbatim>\<open>atoi\<close>, which is \<^verbatim>\<open>(int) strtol (nptr, NULL, 10)\<close>: white space, a sign, decimal
  digits; \<^verbatim>\<open>strtol\<close> stops at the ends of the 64-bit \<^verbatim>\<open>long\<close>, and the cast keeps the
  low 32 bits.\<close>

definition LONG_MAX :: int where
  "LONG_MAX = 2 ^ 63 - 1"

definition LONG_MIN :: int where
  "LONG_MIN = - (2 ^ 63)"

definition strtol10 :: "string \<Rightarrow> int" where
  "strtol10 s =
     (let s1 = dropWhile isspace s in
      case s1 of
        [] \<Rightarrow> 0
      | c # r \<Rightarrow>
          if c = CHR ''-'' then max LONG_MIN (- int (fst (strto_digits 10 0 r)))
          else if c = CHR ''+'' then min LONG_MAX (int (fst (strto_digits 10 0 r)))
          else min LONG_MAX (int (fst (strto_digits 10 0 s1))))"

definition atoi :: "string \<Rightarrow> 32 word" where
  "atoi s = word_of_int (strtol10 s)"

section \<open>The raw endpoint codec\<close>

text \<open>\<^verbatim>\<open>sockaddr_to_msg\<close>: the message holds the address text, a colon, the port in
  decimal and the terminating NUL that \<^verbatim>\<open>strcat\<close> writes (the size counts it); the
  \<^verbatim>\<open>more\<close> flag is set.\<close>

definition sockaddr_to_msg :: "sockaddr_in \<Rightarrow> msg_t" where
  "sockaddr_to_msg addr =
     (let name = inet_ntoa (sin_addr addr);
          port = dec_str (unat (ntohs (sin_port addr)))
      in \<lparr>data = name @ '':'' @ port @ [NUL], flag_more = True\<rparr>)"

text \<open>The delimiter loop of \<^verbatim>\<open>resolve_raw_address\<close>: it walks back from the end and
  stops at the first colon it meets, so it finds the last one; \<open>chars_left\<close> counts
  down with the position.\<close>

fun find_delimiter :: "string \<Rightarrow> nat \<Rightarrow> nat option" where
  "find_delimiter name 0 = None"
| "find_delimiter name (Suc chars_left) =
     (if name ! chars_left = CHR '':'' then Some chars_left
      else find_delimiter name chars_left)"

datatype rc_t = Ok | Fail errno_t

definition resolve_raw_address :: "string \<Rightarrow> engine \<Rightarrow> rc_t \<times> engine" where
  "resolve_raw_address name e =
     (let e0 = e\<lparr>raw_address := \<lparr>sin_family = AF_UNSPEC, sin_port = 0, sin_addr = 0\<rparr>\<rparr>
      in case find_delimiter name (length name) of
           None \<Rightarrow> (Fail EINVAL, e0)
         | Some delimiter \<Rightarrow>
             (let addr_str = take delimiter name;
                  port_str = drop (delimiter + 1) name;
                  port = (ucast (atoi (c_str port_str)) :: 16 word)
              in if port = 0 then (Fail EINVAL, e0)
                 else
                   (let e1 = e0\<lparr>raw_address :=
                                \<lparr>sin_family = AF_INET, sin_port = htons port,
                                 sin_addr = inet_addr (c_str addr_str)\<rparr>\<rparr>
                    in if sin_addr (raw_address e1) = INADDR_NONE then (Fail EINVAL, e1)
                       else (Ok, e1))))"

section \<open>Sending\<close>

text \<open>\<^verbatim>\<open>memcpy\<close> into a fixed buffer at an offset; a copy past the end of the array
  has no defined behaviour.\<close>

definition memcpy_to :: "byte list \<Rightarrow> nat \<Rightarrow> byte list \<Rightarrow> byte list option" where
  "memcpy_to buf off src =
     (if off + length src \<le> length buf
      then Some (take off buf @ src @ drop (off + length src) buf)
      else None)"

text \<open>\<^verbatim>\<open>memcpy\<close> out of a fixed buffer.\<close>

definition memcpy_from :: "byte list \<Rightarrow> nat \<Rightarrow> nat \<Rightarrow> byte list option" where
  "memcpy_from buf off n =
     (if off + n \<le> length buf then Some (take n (drop off buf)) else None)"

definition out_dest :: "engine \<Rightarrow> dest" where
  "out_dest e =
     (case out_address e of
        Out_null \<Rightarrow> Dest_null
      | Out_raw \<Rightarrow> Dest_raw (raw_address e)
      | Out_target \<Rightarrow>
          (case address e of None \<Rightarrow> Dest_null | Some a \<Rightarrow> Dest_ip (target_addr a)))"

text \<open>The end of \<^verbatim>\<open>out_event\<close>: both messages are closed and the first \<open>size'\<close> bytes
  of the send buffer go out in one \<^verbatim>\<open>sendto\<close>; \<open>os\<close> tells whether the system call
  succeeds, and a failed one trips \<^verbatim>\<open>errno_assert\<close>.\<close>

definition out_event_send ::
  "(event \<Rightarrow> bool) \<Rightarrow> nat \<Rightarrow> msg_t \<Rightarrow> msg_t \<Rightarrow> engine \<Rightarrow> outcome \<times> engine" where
  "out_event_send os size' group_msg body_msg e =
     (let e1 = msg_close body_msg (msg_close group_msg e);
          call = Sendto (take size' (out_buffer e1)) (out_dest e1)
      in (if os call then Returns else Aborts, emit call e1))"

text \<open>The framed branch of \<^verbatim>\<open>out_event\<close>: the length byte is the group size cut to
  eight bits, then the group, then the body.\<close>

definition out_event_frame :: "byte list \<Rightarrow> msg_t \<Rightarrow> msg_t \<Rightarrow> byte list option" where
  "out_event_frame buf group_msg body_msg =
     (let group_size = length (data group_msg)
      in case memcpy_to buf 0 [char_of group_size] of
           None \<Rightarrow> None
         | Some buf1 \<Rightarrow>
             (case memcpy_to buf1 1 (data group_msg) of
                None \<Rightarrow> None
              | Some buf2 \<Rightarrow> memcpy_to buf2 (1 + group_size) (data body_msg)))"

definition out_event :: "(event \<Rightarrow> bool) \<Rightarrow> engine \<Rightarrow> outcome \<times> engine" where
  "out_event os e =
     (case session e of
        None \<Rightarrow> (Undefined, e)
      | Some s \<Rightarrow>
          (case pull_msg s e of
             (None, s1, e1) \<Rightarrow> (Returns, reset_pollout e1)
           | (Some group_msg, s1, e1) \<Rightarrow>
               (case pull_msg s1 e1 of
                  (None, s2, e2) \<Rightarrow> (Undefined, e2)
                | (Some body_msg, s2, e2) \<Rightarrow>
                    (let group_size = length (data group_msg);
                         body_size = length (data body_msg)
                     in if raw_socket (options e2) then
                          (case resolve_raw_address (data group_msg) e2 of
                             (Fail en, e3) \<Rightarrow>
                               (Returns, msg_close body_msg (msg_close group_msg e3))
                           | (Ok, e3) \<Rightarrow>
                               (case memcpy_to (out_buffer e3) 0 (data body_msg) of
                                  None \<Rightarrow> (Undefined, e3)
                                | Some buf \<Rightarrow>
                                    out_event_send os body_size group_msg body_msg
                                      (e3\<lparr>out_buffer := buf\<rparr>)))
                        else
                          (case out_event_frame (out_buffer e2) group_msg body_msg of
                             None \<Rightarrow> (Undefined, e2)
                           | Some buf \<Rightarrow>
                               out_event_send os (group_size + body_size + 1) group_msg body_msg
                                 (e2\<lparr>out_buffer := buf\<rparr>))))))"

text \<open>The loop of \<^verbatim>\<open>restart_output\<close> when sending is disabled: pull and close until
  the session has nothing more.\<close>

function restart_output_drop :: "session_t \<Rightarrow> engine \<Rightarrow> engine" where
  "restart_output_drop s e =
     (case pull_msg s e of
        (None, s', e') \<Rightarrow> e'
      | (Some msg, s', e') \<Rightarrow> restart_output_drop s' (msg_close msg e'))"
  by pat_completeness auto
termination
  by (relation "measure (\<lambda>(s, e). length (pipe_out s))")
     (auto simp: pull_msg_def Let_def split: list.splits)

declare restart_output_drop.simps [simp del]

definition restart_output :: "(event \<Rightarrow> bool) \<Rightarrow> engine \<Rightarrow> outcome \<times> engine" where
  "restart_output os e =
     (if \<not> send_enabled e then
        (case session e of
           None \<Rightarrow> (Undefined, e)
         | Some s \<Rightarrow> (Returns, restart_output_drop s e))
      else out_event os (set_pollout e))"

section \<open>Receiving\<close>

text \<open>What \<^verbatim>\<open>recvfrom\<close> reports: an error, or a datagram and the address of its
  sender.\<close>

datatype recv_t = Recv_fail errno_t | Recv_dgram "byte list" sockaddr_in

text \<open>The second half of \<^verbatim>\<open>in_event\<close>, from the push of the group message on.\<close>

definition in_event_push :: "msg_t \<Rightarrow> nat \<Rightarrow> nat \<Rightarrow> engine \<Rightarrow> outcome \<times> engine" where
  "in_event_push msg body_size body_offset e =
     (case session e of
        None \<Rightarrow> (Undefined, e)
      | Some s \<Rightarrow>
          (case push_msg s msg e of
             (rc, msg1, e1) \<Rightarrow>
               if \<not> rc then (Returns, reset_pollin (msg_close msg1 e1))
               else
                 (let e2 = msg_close msg1 e1
                  in case memcpy_from (in_buffer e2) body_offset body_size of
                       None \<Rightarrow> (Undefined, e2)
                     | Some body \<Rightarrow>
                         (case push_msg s \<lparr>data = body, flag_more = False\<rparr> e2 of
                            (rc2, msg2, e3) \<Rightarrow>
                              if \<not> rc2
                              then (Returns, reset_pollin (session_reset (msg_close msg2 e3)))
                              else (Returns, session_flush (msg_close msg2 e3))))))"

text \<open>\<^verbatim>\<open>in_event\<close>. \<^verbatim>\<open>recvfrom\<close> fills at most the capacity of the receive buffer and
  leaves the rest of the buffer as it was. In framed mode the group is copied out of
  the buffer before the length check, as in the source.\<close>

definition in_event :: "recv_t \<Rightarrow> engine \<Rightarrow> outcome \<times> engine" where
  "in_event r e =
     (case r of
        Recv_fail en \<Rightarrow>
          if en = EBADF \<or> en = EFAULT \<or> en = ENOMEM \<or> en = ENOTSOCK then (Aborts, e)
          else (Returns, e)
      | Recv_dgram dgram in_address \<Rightarrow>
          (let nbytes = min (length dgram) (length (in_buffer e));
               e1 = e\<lparr>in_buffer := take nbytes dgram @ drop nbytes (in_buffer e)\<rparr>
           in if raw_socket (options e1) then
                in_event_push (sockaddr_to_msg in_address) nbytes 0 e1
              else
                (case in_buffer e1 of
                   [] \<Rightarrow> (Undefined, e1)
                 | b # group_buffer \<Rightarrow>
                     (let group_size = (of_char b :: nat)
                      in case memcpy_from (in_buffer e1) 1 group_size of
                           None \<Rightarrow> (Undefined, e1)
                         | Some group_data \<Rightarrow>
                             if int nbytes - 1 < int group_size then (Returns, e1)
                             else
                               in_event_push \<lparr>data = group_data, flag_more = True\<rparr>
                                 (nbytes - 1 - group_size) (1 + group_size) e1))))"

definition restart_input :: "recv_t \<Rightarrow> engine \<Rightarrow> outcome \<times> engine" where
  "restart_input r e =
     (if \<not> recv_enabled e then (Returns, e) else in_event r (set_pollin e))"

section \<open>Attaching and detaching\<close>

text \<open>A system call that must succeed: it is recorded, and its failure trips the
  assertion that follows it in the source.\<close>

definition must :: "(event \<Rightarrow> bool) \<Rightarrow> event \<Rightarrow> engine \<Rightarrow> outcome \<times> engine" where
  "must os call e = (if os call then Returns else Aborts, emit call e)"

text \<open>The send half of \<^verbatim>\<open>plug\<close>. The resolved address is read only where the source
  reads it; reading it through a null \<^verbatim>\<open>address\<close> has no defined behaviour.\<close>

definition plug_send :: "(event \<Rightarrow> bool) \<Rightarrow> engine \<Rightarrow> outcome \<times> engine" where
  "plug_send os e =
     (if \<not> send_enabled e then (Returns, e)
      else if \<not> raw_socket (options e) then
        (case address e of
           None \<Rightarrow> (Undefined, e)
         | Some a \<Rightarrow>
             (let out = target_addr a;
                  e1 = e\<lparr>out_address := Out_target\<rparr>
              in if is_multicast out then
                   (case must os
                           (Setsockopt
                              (if ip_family out = AF_INET6
                               then IPV6_MULTICAST_LOOP (multicast_loop (options e1))
                               else IP_MULTICAST_LOOP (multicast_loop (options e1)))) e1 of
                      (Returns, e2) \<Rightarrow> (Returns, set_pollout e2)
                    | bad \<Rightarrow> bad)
                 else (Returns, set_pollout e1)))
      else (Returns, set_pollout (e\<lparr>out_address := Out_raw\<rparr>)))"

text \<open>The multicast join of the receive half. The interface index is an \<^verbatim>\<open>int\<close> that
  the IPv6 request stores in the unsigned \<^verbatim>\<open>ipv6mr_interface\<close>, so \<open>-1\<close> goes out as
  \<open>4294967295\<close>.\<close>

definition plug_join :: "(event \<Rightarrow> bool) \<Rightarrow> udp_address_t \<Rightarrow> engine \<Rightarrow> outcome \<times> engine" where
  "plug_join os a e =
     (let mcast_addr = target_addr a
      in case ip_family mcast_addr of
           AF_INET \<Rightarrow>
             must os (Setsockopt (IP_ADD_MEMBERSHIP (ip_host mcast_addr) (ip_host (bind_addr a)))) e
         | AF_INET6 \<Rightarrow>
             (let iface = bind_if a
              in if \<not> iface \<ge> - 1 then (Aborts, e)
                 else must os (Setsockopt (IPV6_ADD_MEMBERSHIP (ip_host mcast_addr) (word_of_int iface))) e)
         | AF_UNSPEC \<Rightarrow> (Aborts, e))"

text \<open>The address handed to \<^verbatim>\<open>bind\<close>: the wildcard address of the family of the bind
  address, with its port, when the resolved address is multicast; the bind address
  itself otherwise.\<close>

definition real_bind_addr :: "udp_address_t \<Rightarrow> ip_addr_t" where
  "real_bind_addr a =
     (if is_mcast a then set_port (port (bind_addr a)) (any (ip_family (bind_addr a)))
      else bind_addr a)"

text \<open>The receive half of \<^verbatim>\<open>plug\<close>: address reuse, the bind, the join, read interest,
  and one \<^verbatim>\<open>restart_output\<close>.\<close>

definition plug_recv :: "(event \<Rightarrow> bool) \<Rightarrow> engine \<Rightarrow> outcome \<times> engine" where
  "plug_recv os e =
     (if \<not> recv_enabled e then (Returns, e)
      else
        (case must os (Setsockopt SO_REUSEADDR) e of
           (Returns, e1) \<Rightarrow>
             (case address e1 of
                None \<Rightarrow> (Undefined, e1)
              | Some a \<Rightarrow>
                  (case must os (Bind (real_bind_addr a)) e1 of
                     (Returns, e2) \<Rightarrow>
                       (case (if is_mcast a then plug_join os a e2 else (Returns, e2)) of
                          (Returns, e3) \<Rightarrow> restart_output os (set_pollin e3)
                        | bad \<Rightarrow> bad)
                   | bad \<Rightarrow> bad))
         | bad \<Rightarrow> bad))"

definition plug :: "(event \<Rightarrow> bool) \<Rightarrow> session_t option \<Rightarrow> engine \<Rightarrow> outcome \<times> engine" where
  "plug os session' e =
     (if plugged e then (Aborts, e)
      else
        (let e1 = e\<lparr>plugged := True\<rparr>
         in if session e1 \<noteq> None then (Aborts, e1)
            else
              (case session' of
                 None \<Rightarrow> (Aborts, e1)
               | Some s \<Rightarrow>
                   (let e2 = emit Add_fd (e1\<lparr>session := Some s\<rparr>);
                        e3 = (if bound_device (options e2) \<noteq> []
                              then emit (Bind_to_device (bound_device (options e2))) e2
                              else e2)
                    in case plug_send os e3 of
                         (Returns, e4) \<Rightarrow> plug_recv os e4
                       | bad \<Rightarrow> bad))))"

definition terminate :: "engine \<Rightarrow> outcome \<times> engine" where
  "terminate e =
     (if \<not> plugged e then (Aborts, e)
      else (Returns, emit Rm_fd (e\<lparr>plugged := False\<rparr>)))"

section \<open>Address texts as the spec and the C library describe them\<close>

text \<open>A text cut at its dots.\<close>

fun split_dots :: "string \<Rightarrow> string list" where
  "split_dots [] = [[]]"
| "split_dots (c # cs) =
     (if c = CHR ''.'' then [] # split_dots cs
      else (case split_dots cs of [] \<Rightarrow> [[c]] | p # ps \<Rightarrow> (c # p) # ps))"

text \<open>Digits: whether a character is a digit of base 8, 10 or 16, and its value.\<close>

definition in_base :: "nat \<Rightarrow> char \<Rightarrow> bool" where
  "in_base b c =
     (let k = (of_char c :: nat)
      in 48 \<le> k \<and> k \<le> 57 \<and> k - 48 < b \<or>
         b = 16 \<and> (65 \<le> k \<and> k \<le> 70 \<or> 97 \<le> k \<and> k \<le> 102))"

definition digit_value :: "char \<Rightarrow> nat" where
  "digit_value c =
     (let k = (of_char c :: nat)
      in if k \<le> 57 then k - 48 else if k \<le> 70 then k - 55 else k - 87)"

definition base_value :: "nat \<Rightarrow> nat \<Rightarrow> string \<Rightarrow> nat" where
  "base_value b acc q = foldl (\<lambda>a c. a * b + digit_value c) acc q"

text \<open>A number as C writes it: \<^verbatim>\<open>0x\<close> or \<^verbatim>\<open>0X\<close> and hexadecimal digits, a leading \<^verbatim>\<open>0\<close> and
  octal digits, or decimal digits that do not start with \<^verbatim>\<open>0\<close>.\<close>

definition c_numeral :: "string \<Rightarrow> nat option" where
  "c_numeral p =
     (case p of
        [] \<Rightarrow> None
      | c # cs \<Rightarrow>
          if c = CHR ''0'' then
            (case cs of
               [] \<Rightarrow> Some 0
             | x # hs \<Rightarrow>
                 if (x = CHR ''x'' \<or> x = CHR ''X'') \<and> hs \<noteq> [] \<and> list_all (in_base 16) hs
                 then Some (base_value 16 0 hs)
                 else if list_all (in_base 8) cs then Some (base_value 8 0 cs)
                 else None)
          else if list_all (in_base 10) p then Some (base_value 10 0 p)
          else None)"

definition numeral_below :: "nat \<Rightarrow> string \<Rightarrow> bool" where
  "numeral_below m p = (case c_numeral p of None \<Rightarrow> False | Some v \<Rightarrow> v < m)"

text \<open>The numbers-and-dots notation that \<^verbatim>\<open>inet_addr\<close> is documented to read: the text
  up to its first white space is one to four numbers separated by dots; every number
  but the last is below 256, and the last fills the bytes that remain. \<open>k\<close> counts
  the numbers that came before.\<close>

definition inet_notation_from :: "nat \<Rightarrow> string \<Rightarrow> bool" where
  "inet_notation_from k s =
     (case rev (split_dots (takeWhile (\<lambda>c. \<not> isspace c) s)) of
        [] \<Rightarrow> False
      | l # fs \<Rightarrow>
          k + length fs \<le> 3 \<and> list_all (numeral_below 256) fs \<and>
          numeral_below (256 ^ (4 - (k + length fs))) l)"

definition inet_notation :: "string \<Rightarrow> bool" where
  "inet_notation s = inet_notation_from 0 s"




section \<open>Expected traces and example values\<close>

text \<open>What the drop loop is expected to leave in the trace for a pipe holding \<open>ms\<close>:
  every message pulled and closed, in order, and the final pull that finds nothing.\<close>

fun drained :: "msg_t list \<Rightarrow> event list" where
  "drained [] = [Pull_msg None]"
| "drained (m # ms) = Pull_msg (Some m) # Close m # drained ms"

text \<open>A small engine, attached to a session, for concrete runs: buffers of 256 bytes,
  an IPv4 multicast group 239.0.0.1 joined through 192.168.0.1, port 5555.\<close>

definition example_address :: udp_address_t where
  "example_address =
     \<lparr>bind_addr = \<lparr>ip_family = AF_INET, ip_host = 0xC0A80001, ip_port = 5555\<rparr>,
      target_addr = \<lparr>ip_family = AF_INET, ip_host = 0xEF000001, ip_port = 5555\<rparr>,
      is_mcast = True, bind_if = 0\<rparr>"

definition example_engine :: "bool \<Rightarrow> session_t option \<Rightarrow> engine" where
  "example_engine raw s =
     \<lparr>plugged = True, session = s, address = Some example_address,
      options = \<lparr>raw_socket = raw, bound_device = [], multicast_loop = False\<rparr>,
      send_enabled = True, recv_enabled = True,
      raw_address = \<lparr>sin_family = AF_UNSPEC, sin_port = 0, sin_addr = 0\<rparr>,
      out_address = (if raw then Out_raw else Out_target),
      out_buffer = replicate 256 NUL, in_buffer = replicate 256 NUL,
      pollin = True, pollout = True, trace = []\<rparr>"

text \<open>Session doubles: one that rejects every push, one that accepts only messages
  with the \<^verbatim>\<open>more\<close> flag (the group, not the body), one that accepts everything.\<close>

definition rejecting_session :: session_t where
  "rejecting_session = \<lparr>pipe_out = [], accepts = (\<lambda>t m. False)\<rparr>"

definition group_only_session :: session_t where
  "group_only_session = \<lparr>pipe_out = [], accepts = (\<lambda>t m. flag_more m)\<rparr>"

definition accepting_session :: "msg_t list \<Rightarrow> session_t" where
  "accepting_session ms = \<lparr>pipe_out = ms, accepts = (\<lambda>t m. True)\<rparr>"

definition example_peer :: sockaddr_in where
  "example_peer = \<lparr>sin_family = AF_INET, sin_port = htons 8080, sin_addr = 0x7F000001\<rparr>"

section \<open>Receive path: what one readiness event does\<close>

lemma in_event_push_eq:
  assumes "session e = Some s"
  shows "in_event_push msg body_size body_offset e =
     (if \<not> accepts s (trace e) msg then
        (Returns, e\<lparr>pollin := False, trace := trace e @ [Push_msg msg False, Close msg]\<rparr>)
      else if \<not> body_offset + body_size \<le> length (in_buffer e) then
        (Undefined, e\<lparr>trace := trace e @ [Push_msg msg True, Close msg_init]\<rparr>)
      else
        (let body = \<lparr>data = take body_size (drop body_offset (in_buffer e)), flag_more = False\<rparr>
         in if \<not> accepts s (trace e @ [Push_msg msg True, Close msg_init]) body then
              (Returns, e\<lparr>pollin := False,
                 trace := trace e @ [Push_msg msg True, Close msg_init,
                                     Push_msg body False, Close body, Reset]\<rparr>)
            else
              (Returns, e\<lparr>trace := trace e @ [Push_msg msg True, Close msg_init,
                                               Push_msg body True, Close msg_init, Flush]\<rparr>)))"
  using assms
  by (simp add: in_event_push_def push_msg_def msg_close_def emit_def reset_pollin_def
      session_reset_def session_flush_def memcpy_from_def Let_def)

lemma in_event_push_none:
  "session e = None \<Longrightarrow> in_event_push msg body_size body_offset e = (Undefined, e)"
  by (simp add: in_event_push_def)

lemma of_char_le_255: "(of_char b :: nat) \<le> 255"
  using nat_of_char_less_256 [of b] by linarith

text \<open>
  C2 (body-reject forces a reset). In raw mode the group message is the text of the
  sender's address and the body is the datagram as received; in framed mode, for a
  datagram that holds its declared group, they are the group and the rest. Whenever
  the session accepts the push of that group message and rejects the push of the body
  that follows, \<open>in_event\<close> returns having closed the body, called the session's reset
  exactly once and no flush, and with read interest off; nothing else changes but
  the receive buffer.
\<close>

theorem body_reject_forces_reset:
  assumes "session e = Some s"
      and "raw_socket (options e) \<and> g = sockaddr_to_msg a \<and>
             b = take (length (in_buffer e)) d \<or>
           \<not> raw_socket (options e) \<and> d = c # ds \<and> length d \<le> length (in_buffer e) \<and>
             of_char c \<le> length ds \<and>
             g = \<lparr>data = take (of_char c) ds, flag_more = True\<rparr> \<and> b = drop (of_char c) ds"
      and "accepts s (trace e) g"
      and "\<not> accepts s (trace e @ [Push_msg g True, Close msg_init]) \<lparr>data = b, flag_more = False\<rparr>"
    shows "in_event (Recv_dgram d a) e =
             (Returns,
              e\<lparr>in_buffer := take (length (in_buffer e)) d @ drop (length d) (in_buffer e),
                pollin := False,
                trace := trace e @
                  [Push_msg g True, Close msg_init,
                   Push_msg \<lparr>data = b, flag_more = False\<rparr> False,
                   Close \<lparr>data = b, flag_more = False\<rparr>, Reset]\<rparr>)"
  using assms(2)
proof (elim disjE conjE)
  assume raw: "raw_socket (options e)" and g: "g = sockaddr_to_msg a"
    and b: "b = take (length (in_buffer e)) d"
  let ?n = "min (length d) (length (in_buffer e))"
  let ?buf = "take ?n d @ drop ?n (in_buffer e)"
  have buf: "?buf = take (length (in_buffer e)) d @ drop (length d) (in_buffer e)"
    by (cases "length d \<le> length (in_buffer e)") (simp_all add: min_def)
  have len: "?n \<le> length ?buf" by simp
  have body: "take ?n ?buf = b"
    unfolding b by (cases "length d \<le> length (in_buffer e)") (simp_all add: min_def)
  have "in_event (Recv_dgram d a) e =
          in_event_push g ?n 0 (e\<lparr>in_buffer := ?buf\<rparr>)"
    using raw g by (simp add: in_event_def Let_def)
  also have "\<dots> = (Returns,
              e\<lparr>in_buffer := ?buf, pollin := False,
                trace := trace e @
                  [Push_msg g True, Close msg_init,
                   Push_msg \<lparr>data = b, flag_more = False\<rparr> False,
                   Close \<lparr>data = b, flag_more = False\<rparr>, Reset]\<rparr>)"
    using assms(1,3,4) len body
    by (simp add: in_event_push_eq [where s = s] Let_def del: take_append drop_append)
  finally show ?thesis by (simp only: buf)
next
  assume fr: "\<not> raw_socket (options e)" and d: "d = c # ds"
    and fit: "length d \<le> length (in_buffer e)" and gs: "of_char c \<le> length ds"
    and g: "g = \<lparr>data = take (of_char c) ds, flag_more = True\<rparr>"
    and b: "b = drop (of_char c) ds"
  let ?buf = "c # ds @ drop (length d) (in_buffer e)"
  have n: "min (length d) (length (in_buffer e)) = length d" using fit by simp
  have le: "of_char c \<le> length (in_buffer e) - Suc 0" using fit gs d by simp
  have "in_event (Recv_dgram d a) e =
          in_event_push g (length d - 1 - of_char c) (1 + of_char c) (e\<lparr>in_buffer := ?buf\<rparr>)"
    using fr fit gs g le
    by (simp add: in_event_def Let_def memcpy_from_def d)
  also have "\<dots> = (Returns,
              e\<lparr>in_buffer := ?buf, pollin := False,
                trace := trace e @
                  [Push_msg g True, Close msg_init,
                   Push_msg \<lparr>data = b, flag_more = False\<rparr> False,
                   Close \<lparr>data = b, flag_more = False\<rparr>, Reset]\<rparr>)"
    using assms(1,3,4) fit gs b
    by (simp add: in_event_push_eq [where s = s] Let_def d)
  finally show ?thesis using fit by (simp add: d)
qed

theorem body_reject_forces_reset_witness:
  "in_event (Recv_dgram (char_of (2 :: nat) # ''abcde'') example_peer)
      (example_engine False (Some group_only_session)) =
     (Returns,
      (example_engine False (Some group_only_session))
        \<lparr>in_buffer := char_of (2 :: nat) # ''abcde'' @ replicate 250 NUL, pollin := False,
          trace := [Push_msg \<lparr>data = ''ab'', flag_more = True\<rparr> True, Close msg_init,
                    Push_msg \<lparr>data = ''cde'', flag_more = False\<rparr> False,
                    Close \<lparr>data = ''cde'', flag_more = False\<rparr>, Reset]\<rparr>) \<and>
   in_event (Recv_dgram ''hello'' example_peer)
      (example_engine True (Some group_only_session)) =
     (Returns,
      (example_engine True (Some group_only_session))
        \<lparr>in_buffer := ''hello'' @ replicate 251 NUL, pollin := False,
          trace := [Push_msg (sockaddr_to_msg example_peer) True, Close msg_init,
                    Push_msg \<lparr>data = ''hello'', flag_more = False\<rparr> False,
                    Close \<lparr>data = ''hello'', flag_more = False\<rparr>, Reset]\<rparr>)"
proof -
  let ?f = "example_engine False (Some group_only_session)"
  let ?r = "example_engine True (Some group_only_session)"
  let ?g = "\<lparr>data = ''ab'', flag_more = True\<rparr>"
  have f1: "session ?f = Some group_only_session" by (simp add: example_engine_def)
  have f2: "raw_socket (options ?f) \<and> ?g = sockaddr_to_msg example_peer \<and>
              ''cde'' = take (length (in_buffer ?f)) (char_of (2 :: nat) # ''abcde'') \<or>
            \<not> raw_socket (options ?f) \<and>
              char_of (2 :: nat) # ''abcde'' = char_of (2 :: nat) # ''abcde'' \<and>
              length (char_of (2 :: nat) # ''abcde'') \<le> length (in_buffer ?f) \<and>
              of_char (char_of (2 :: nat)) \<le> length ''abcde'' \<and>
              ?g = \<lparr>data = take (of_char (char_of (2 :: nat))) ''abcde'', flag_more = True\<rparr> \<and>
              ''cde'' = drop (of_char (char_of (2 :: nat))) ''abcde''"
    by (simp add: example_engine_def)
  have f3: "accepts group_only_session (trace ?f) ?g"
    by (simp add: group_only_session_def)
  have f4: "\<not> accepts group_only_session (trace ?f @ [Push_msg ?g True, Close msg_init])
               \<lparr>data = ''cde'', flag_more = False\<rparr>"
    by (simp add: group_only_session_def)
  have r1: "session ?r = Some group_only_session" by (simp add: example_engine_def)
  have r2: "raw_socket (options ?r) \<and> sockaddr_to_msg example_peer = sockaddr_to_msg example_peer \<and>
              ''hello'' = take (length (in_buffer ?r)) ''hello'' \<or>
            \<not> raw_socket (options ?r) \<and> ''hello'' = CHR ''h'' # ''ello'' \<and>
              length ''hello'' \<le> length (in_buffer ?r) \<and>
              of_char CHR ''h'' \<le> length ''ello'' \<and>
              sockaddr_to_msg example_peer =
                \<lparr>data = take (of_char CHR ''h'') ''ello'', flag_more = True\<rparr> \<and>
              ''hello'' = drop (of_char CHR ''h'') ''ello''"
    by (simp add: example_engine_def)
  have r3: "accepts group_only_session (trace ?r) (sockaddr_to_msg example_peer)"
    by (simp add: group_only_session_def sockaddr_to_msg_def Let_def)
  have r4: "\<not> accepts group_only_session
               (trace ?r @ [Push_msg (sockaddr_to_msg example_peer) True, Close msg_init])
               \<lparr>data = ''hello'', flag_more = False\<rparr>"
    by (simp add: group_only_session_def)
  from body_reject_forces_reset [OF f1 f2 f3 f4]
       body_reject_forces_reset [OF r1 r2 r3 r4]
  show ?thesis by (simp add: example_engine_def)
qed

text \<open>
  C3 (group-reject is clean). Whenever, in one \<open>in_event\<close>, the session rejects the
  push of the group message, all that the engine still does is close that message: no
  body push, no reset and no flush follow; read interest is off afterwards, and the
  handler returns.
\<close>

theorem group_reject_is_clean:
  assumes "in_event r e = (out, e')"
      and "trace e' = trace e @ Push_msg g False # rest"
    shows "out = Returns \<and> rest = [Close g] \<and> \<not> pollin e'"
proof (cases "session e")
  case None
  with assms show ?thesis
    by (auto simp: in_event_def in_event_push_none Let_def
        split: recv_t.splits if_splits list.splits option.splits)
next
  case (Some s)
  with assms show ?thesis
    by (auto simp: in_event_def in_event_push_eq Let_def
        split: recv_t.splits if_splits list.splits option.splits)
qed

theorem group_reject_is_clean_witness:
  "\<exists>e'. in_event (Recv_dgram (char_of (2 :: nat) # ''abcde'') example_peer)
           (example_engine False (Some rejecting_session)) = (Returns, e') \<and>
        trace e' = [Push_msg \<lparr>data = ''ab'', flag_more = True\<rparr> False,
                    Close \<lparr>data = ''ab'', flag_more = True\<rparr>] \<and>
        \<not> pollin e'"
proof -
  let ?e = "example_engine False (Some rejecting_session)"
  let ?r = "Recv_dgram (char_of (2 :: nat) # ''abcde'') example_peer"
  obtain out e' where run: "in_event ?r ?e = (out, e')"
    by (cases "in_event ?r ?e") blast
  have tr: "trace e' = trace ?e @ Push_msg \<lparr>data = ''ab'', flag_more = True\<rparr> False #
              [Close \<lparr>data = ''ab'', flag_more = True\<rparr>]"
    using run
    by (auto simp: in_event_def in_event_push_eq [where s = rejecting_session] Let_def
        example_engine_def rejecting_session_def memcpy_from_def)
  from group_reject_is_clean [OF run tr] run tr show ?thesis
    by (simp add: example_engine_def)
qed

text \<open>
  C4 (truncated envelope drop). In framed mode, with a receive buffer of at least 256
  bytes, a datagram that is shorter than 1 plus the group length declared in its first
  byte changes nothing but the receive buffer: the handler returns with the trace as
  it was, so there is no group push, no body push, no flush and no reset, and read
  interest and the session are untouched.
\<close>

theorem truncated_envelope_dropped:
  assumes "\<not> raw_socket (options e)"
      and "length (b # ds) < 1 + of_char b"
      and "256 \<le> length (in_buffer e)"
    shows "in_event (Recv_dgram (b # ds) a) e =
             (Returns, e\<lparr>in_buffer := b # ds @ drop (length (b # ds)) (in_buffer e)\<rparr>)"
proof -
  note of_char_le_255 [of b]
  with assms show ?thesis
    by (cases "in_buffer e") (auto simp: in_event_def Let_def memcpy_from_def min_def)
qed

theorem truncated_envelope_dropped_witness:
  "\<not> raw_socket (options (example_engine False (Some (accepting_session [])))) \<and>
   length (char_of (9 :: nat) # ''abcde'') < 1 + of_char (char_of (9 :: nat)) \<and>
   256 \<le> length (in_buffer (example_engine False (Some (accepting_session [])))) \<and>
   trace (snd (in_event (Recv_dgram (char_of (9 :: nat) # ''abcde'') example_peer)
                 (example_engine False (Some (accepting_session []))))) = []"
proof -
  let ?e = "example_engine False (Some (accepting_session []))"
  have h1: "\<not> raw_socket (options ?e)" by (simp add: example_engine_def)
  have h2: "length (char_of (9 :: nat) # ''abcde'') < 1 + of_char (char_of (9 :: nat))" by simp
  have h3: "256 \<le> length (in_buffer ?e)" by (simp add: example_engine_def)
  from truncated_envelope_dropped [OF h1 h2 h3, of example_peer] h1 h2 h3 show ?thesis
    by (simp add: example_engine_def)
qed

text \<open>
  C9 (a zero-length framed datagram is dropped). In framed mode, with a receive
  buffer of at least 256 bytes, a datagram of length 0 leaves the engine exactly as it
  was: the length byte is whatever the buffer held before, and \<open>0 - 1\<close> is below every
  group length, so the handler returns before any push.
\<close>

theorem empty_datagram_dropped:
  assumes "\<not> raw_socket (options e)"
      and "256 \<le> length (in_buffer e)"
    shows "in_event (Recv_dgram [] a) e = (Returns, e)"
proof -
  obtain b bs where buf: "in_buffer e = b # bs"
    using assms(2) by (cases "in_buffer e") auto
  note of_char_le_255 [of b]
  with assms buf show ?thesis
    by (auto simp: in_event_def Let_def memcpy_from_def)
qed

theorem empty_datagram_dropped_witness:
  "\<not> raw_socket (options (example_engine False (Some (accepting_session [])))) \<and>
   256 \<le> length (in_buffer (example_engine False (Some (accepting_session [])))) \<and>
   in_event (Recv_dgram [] example_peer) (example_engine False (Some (accepting_session [])))
     = (Returns, example_engine False (Some (accepting_session [])))"
proof -
  let ?e = "example_engine False (Some (accepting_session []))"
  have h1: "\<not> raw_socket (options ?e)" by (simp add: example_engine_def)
  have h2: "256 \<le> length (in_buffer ?e)" by (simp add: example_engine_def)
  from empty_datagram_dropped [OF h1 h2, of example_peer] h1 h2 show ?thesis
    by simp
qed

section \<open>Send path\<close>

lemma resolve_raw_address_rc:
  "fst (resolve_raw_address name e) = fst (resolve_raw_address name e')"
  by (simp add: resolve_raw_address_def Let_def split: option.splits)

lemma resolve_raw_address_frame:
  "resolve_raw_address name e = (rc, e') \<Longrightarrow>
   trace e' = trace e \<and> pollout e' = pollout e \<and> pollin e' = pollin e \<and>
   session e' = session e \<and> out_buffer e' = out_buffer e \<and> out_address e' = out_address e \<and>
   address e' = address e"
  by (auto simp: resolve_raw_address_def Let_def split: option.splits if_splits)

text \<open>
  C7 (raw-mode send discards on a bad address). In raw mode, when the group message
  pulled from the session does not resolve as a raw endpoint, \<open>out_event\<close> pulls the
  body, closes both messages and returns: the trace gains the two pulls and the two
  closes and no \<open>Sendto\<close>, the handler does not abort, and write interest is as it was.
\<close>

theorem raw_bad_address_discards:
  assumes "session e = Some s"
      and "pipe_out s = g # b # rest"
      and "raw_socket (options e)"
      and "fst (resolve_raw_address (data g) e) = Fail en"
    shows "\<exists>e'. out_event os e = (Returns, e') \<and>
             trace e' = trace e @ [Pull_msg (Some g), Pull_msg (Some b), Close g, Close b] \<and>
             pollout e' = pollout e"
proof -
  let ?e2 = "emit (Pull_msg (Some b))
               (emit (Pull_msg (Some g)) (e\<lparr>session := Some (s\<lparr>pipe_out := b # rest\<rparr>)\<rparr>)
                  \<lparr>session := Some (s\<lparr>pipe_out := rest\<rparr>)\<rparr>)"
  have "fst (resolve_raw_address (data g) ?e2) = Fail en"
    using assms(4) resolve_raw_address_rc [of "data g" ?e2 e] by simp
  then obtain e3 where r: "resolve_raw_address (data g) ?e2 = (Fail en, e3)"
    by (cases "resolve_raw_address (data g) ?e2") auto
  from resolve_raw_address_frame [OF r]
  have e3: "trace e3 = trace ?e2 \<and> pollout e3 = pollout ?e2" by simp
  show ?thesis using assms(1-3) r e3
    by (simp add: out_event_def pull_msg_def Let_def msg_close_def emit_def)
qed

theorem raw_bad_address_discards_witness:
  "\<exists>e'. out_event (\<lambda>c. True)
           (example_engine True (Some (accepting_session
              [\<lparr>data = ''1.2.3.4'', flag_more = True\<rparr>, \<lparr>data = ''body'', flag_more = False\<rparr>])))
          = (Returns, e') \<and>
        trace e' = [Pull_msg (Some \<lparr>data = ''1.2.3.4'', flag_more = True\<rparr>),
                    Pull_msg (Some \<lparr>data = ''body'', flag_more = False\<rparr>),
                    Close \<lparr>data = ''1.2.3.4'', flag_more = True\<rparr>,
                    Close \<lparr>data = ''body'', flag_more = False\<rparr>] \<and>
        pollout e'"
proof -
  let ?g = "\<lparr>data = ''1.2.3.4'', flag_more = True\<rparr>"
  let ?b = "\<lparr>data = ''body'', flag_more = False\<rparr>"
  let ?s = "accepting_session [?g, ?b]"
  let ?e = "example_engine True (Some ?s)"
  have h1: "session ?e = Some ?s" by (simp add: example_engine_def)
  have h2: "pipe_out ?s = ?g # ?b # []" by (simp add: accepting_session_def)
  have h3: "raw_socket (options ?e)" by (simp add: example_engine_def)
  have h4: "fst (resolve_raw_address (data ?g) ?e) = Fail EINVAL"
    by (simp add: resolve_raw_address_def)
  from raw_bad_address_discards [OF h1 h2 h3 h4, of "\<lambda>c. True"] show ?thesis
    by (simp add: example_engine_def)
qed

section \<open>The drop loop\<close>

lemma restart_output_drop_eq:
  "pipe_out s = ms \<Longrightarrow> session e = Some s \<Longrightarrow>
   restart_output_drop s e =
     e\<lparr>session := Some (s\<lparr>pipe_out := []\<rparr>), trace := trace e @ drained ms\<rparr>"
proof (induction ms arbitrary: s e)
  case Nil
  then show ?case
    by (subst restart_output_drop.simps) (simp add: pull_msg_def emit_def)
next
  case (Cons m ms)
  let ?s = "s\<lparr>pipe_out := ms\<rparr>"
  let ?e = "msg_close m (emit (Pull_msg (Some m)) (e\<lparr>session := Some ?s\<rparr>))"
  have "restart_output_drop s e = restart_output_drop ?s ?e"
    using Cons.prems by (subst restart_output_drop.simps) (simp add: pull_msg_def Let_def)
  also have "\<dots> = ?e\<lparr>session := Some (?s\<lparr>pipe_out := []\<rparr>), trace := trace ?e @ drained ms\<rparr>"
    by (rule Cons.IH) (simp_all add: msg_close_def emit_def)
  finally show ?case
    by (simp add: msg_close_def emit_def)
qed

lemma drained_no_sendto: "Sendto w d \<notin> set (drained ms)"
  by (induction ms) auto

lemma drained_no_bind: "Bind x \<notin> set (drained ms)"
  by (induction ms) auto

lemma restart_output_disabled:
  assumes "\<not> send_enabled e" "session e = Some s"
  shows "restart_output os e =
           (Returns, e\<lparr>session := Some (s\<lparr>pipe_out := []\<rparr>),
                       trace := trace e @ drained (pipe_out s)\<rparr>)"
  using assms by (simp add: restart_output_def restart_output_drop_eq)

lemma plug_join_trace:
  assumes "plug_join os a e = (out, e')"
  shows "\<exists>new. e' = e\<lparr>trace := trace e @ new\<rparr> \<and> (\<forall>x. Bind x \<notin> set new) \<and> (\<forall>w d. Sendto w d \<notin> set new)"
proof (cases "e' = e")
  case True
  then show ?thesis by (intro exI [of _ "[]"]) simp
next
  case False
  with assms show ?thesis
    by (auto simp: plug_join_def must_def emit_def Let_def split: family_t.splits if_splits)
qed

lemma plug_send_disabled: "\<not> send_enabled e \<Longrightarrow> plug_send os e = (Returns, e)"
  by (simp add: plug_send_def)

lemma plug_recv_disabled_send:
  assumes "\<not> send_enabled e" "recv_enabled e" "session e = Some s"
      and "plug_recv os e = (Returns, e')"
    shows "\<exists>pre. trace e' = trace e @ pre @ drained (pipe_out s) \<and>
                 (\<forall>w d. Sendto w d \<notin> set pre) \<and> session e' = Some (s\<lparr>pipe_out := []\<rparr>)"
proof -
  from assms(2,4) obtain a where a: "address e = Some a"
    by (auto simp: plug_recv_def must_def emit_def split: if_splits option.splits)
  let ?e1 = "emit (Setsockopt SO_REUSEADDR) e"
  let ?e2 = "emit (Bind (real_bind_addr a)) ?e1"
  obtain oj e3 where j: "(if is_mcast a then plug_join os a ?e2 else (Returns, ?e2)) = (oj, e3)"
    by (cases "if is_mcast a then plug_join os a ?e2 else (Returns, ?e2)") blast
  then obtain new where new: "e3 = ?e2\<lparr>trace := trace ?e2 @ new\<rparr>" "\<forall>w d. Sendto w d \<notin> set new"
    using plug_join_trace [of os a ?e2 oj e3]
    by (cases "is_mcast a") (auto simp: emit_def)
  have oj: "oj = Returns" and fin: "restart_output os (set_pollin e3) = (Returns, e')"
    using assms(2,4) a j
    by (auto simp: plug_recv_def must_def emit_def split: if_splits outcome.splits)
  have s3: "session (set_pollin e3) = Some s" "\<not> send_enabled (set_pollin e3)"
    using new assms(1,3) by (simp_all add: set_pollin_def emit_def)
  from fin restart_output_disabled [OF s3(2) s3(1), of os]
  have "e' = (set_pollin e3)\<lparr>session := Some (s\<lparr>pipe_out := []\<rparr>),
                       trace := trace (set_pollin e3) @ drained (pipe_out s)\<rparr>" by simp
  then have "trace e' = trace e @ ([Setsockopt SO_REUSEADDR, Bind (real_bind_addr a)] @ new) @ drained (pipe_out s)"
            "session e' = Some (s\<lparr>pipe_out := []\<rparr>)"
    using new by (simp_all add: set_pollin_def emit_def)
  moreover have "\<forall>w d. Sendto w d \<notin> set ([Setsockopt SO_REUSEADDR, Bind (real_bind_addr a)] @ new)"
    using new(2) by simp
  ultimately show ?thesis by blast
qed

text \<open>
  C6 (send-disabled drain). With sending disabled, \<open>restart_output\<close> pulls and closes
  every message of the session's pipe, in order, until a pull finds nothing, leaves
  the pipe empty and changes nothing else; \<open>plug\<close> with receiving enabled ends with the
  same drain; and no \<open>Sendto\<close> occurs, neither in the drain nor in what \<open>plug\<close> does
  before it.
\<close>

theorem send_disabled_drains:
  assumes "\<not> send_enabled e"
  shows "(session e = Some s \<longrightarrow>
            restart_output os e =
              (Returns, e\<lparr>session := Some (s\<lparr>pipe_out := []\<rparr>),
                          trace := trace e @ drained (pipe_out s)\<rparr>)) \<and>
         (recv_enabled e \<and> plug os (Some s) e = (Returns, e') \<longrightarrow>
            (\<exists>pre. trace e' = trace e @ pre @ drained (pipe_out s) \<and>
                   (\<forall>w d. Sendto w d \<notin> set pre) \<and>
                   session e' = Some (s\<lparr>pipe_out := []\<rparr>))) \<and>
         (\<forall>w d. Sendto w d \<notin> set (drained (pipe_out s)))"
proof (intro conjI impI)
  assume "session e = Some s"
  with assms show "restart_output os e =
      (Returns, e\<lparr>session := Some (s\<lparr>pipe_out := []\<rparr>), trace := trace e @ drained (pipe_out s)\<rparr>)"
    by (rule restart_output_disabled)
next
  assume h: "recv_enabled e \<and> plug os (Some s) e = (Returns, e')"
  let ?e2 = "emit Add_fd (e\<lparr>plugged := True, session := Some s\<rparr>)"
  let ?e3 = "if bound_device (options ?e2) \<noteq> [] then emit (Bind_to_device (bound_device (options ?e2))) ?e2 else ?e2"
  have p: "plug_recv os ?e3 = (Returns, e')"
    using h assms by (auto simp: plug_def Let_def plug_send_disabled emit_def split: if_splits)
  have f: "\<not> send_enabled ?e3" "recv_enabled ?e3" "session ?e3 = Some s"
    using h assms by (simp_all add: emit_def)
  from plug_recv_disabled_send [OF f p] obtain pre where
    pre: "trace e' = trace ?e3 @ pre @ drained (pipe_out s)" "\<forall>w d. Sendto w d \<notin> set pre"
         "session e' = Some (s\<lparr>pipe_out := []\<rparr>)" by blast
  obtain pre0 where pre0: "trace ?e3 = trace e @ pre0" "\<forall>w d. Sendto w d \<notin> set pre0"
    by (cases "bound_device (options ?e2) \<noteq> []") (auto simp: emit_def)
  have "trace e' = trace e @ (pre0 @ pre) @ drained (pipe_out s)"
    using pre(1) pre0(1) by simp
  moreover have "\<forall>w d. Sendto w d \<notin> set (pre0 @ pre)" using pre(2) pre0(2) by simp
  ultimately show "\<exists>pre. trace e' = trace e @ pre @ drained (pipe_out s) \<and>
        (\<forall>w d. Sendto w d \<notin> set pre) \<and> session e' = Some (s\<lparr>pipe_out := []\<rparr>)"
    using pre(3) by blast
next
  show "\<forall>w d. Sendto w d \<notin> set (drained (pipe_out s))"
    by (simp add: drained_no_sendto)
qed

theorem send_disabled_drains_witness:
  "restart_output (\<lambda>c. True)
      ((example_engine False (Some (accepting_session
           [\<lparr>data = ''ab'', flag_more = True\<rparr>, \<lparr>data = ''cde'', flag_more = False\<rparr>])))
         \<lparr>send_enabled := False\<rparr>) =
     (Returns,
      (example_engine False (Some (accepting_session [])))
         \<lparr>send_enabled := False,
           trace := [Pull_msg (Some \<lparr>data = ''ab'', flag_more = True\<rparr>),
                     Close \<lparr>data = ''ab'', flag_more = True\<rparr>,
                     Pull_msg (Some \<lparr>data = ''cde'', flag_more = False\<rparr>),
                     Close \<lparr>data = ''cde'', flag_more = False\<rparr>,
                     Pull_msg None]\<rparr>) \<and>
   (\<exists>e' pre.
      plug (\<lambda>c. True)
        (Some (accepting_session
           [\<lparr>data = ''ab'', flag_more = True\<rparr>, \<lparr>data = ''cde'', flag_more = False\<rparr>]))
        ((example_engine False None)\<lparr>plugged := False, send_enabled := False\<rparr>) = (Returns, e') \<and>
      trace e' = pre @ [Pull_msg (Some \<lparr>data = ''ab'', flag_more = True\<rparr>),
                     Close \<lparr>data = ''ab'', flag_more = True\<rparr>,
                     Pull_msg (Some \<lparr>data = ''cde'', flag_more = False\<rparr>),
                     Close \<lparr>data = ''cde'', flag_more = False\<rparr>,
                     Pull_msg None] \<and>
      (\<forall>w d. Sendto w d \<notin> set pre) \<and>
      session e' = Some (accepting_session []))"
proof -
  let ?g = "\<lparr>data = ''ab'', flag_more = True\<rparr>"
  let ?b = "\<lparr>data = ''cde'', flag_more = False\<rparr>"
  let ?s = "accepting_session [?g, ?b]"
  let ?e = "(example_engine False (Some ?s))\<lparr>send_enabled := False\<rparr>"
  let ?p = "(example_engine False None)\<lparr>plugged := False, send_enabled := False\<rparr>"
  have h1: "\<not> send_enabled ?e" by simp
  have h2: "session ?e = Some ?s" by (simp add: example_engine_def)
  have h3: "\<not> send_enabled ?p" by simp
  have h4: "recv_enabled ?p" by (simp add: example_engine_def)
  obtain e' where h5: "plug (\<lambda>c. True) (Some ?s) ?p = (Returns, e')"
    by (simp add: plug_def plug_send_def plug_recv_def plug_join_def must_def Let_def
        example_engine_def example_address_def restart_output_def emit_def set_pollin_def)
  have a: "restart_output (\<lambda>c. True) ?e =
             (Returns, ?e\<lparr>session := Some (?s\<lparr>pipe_out := []\<rparr>),
                          trace := trace ?e @ drained (pipe_out ?s)\<rparr>)"
    using send_disabled_drains [OF h1, of ?s "\<lambda>c. True"] h2 by blast
  have b: "\<exists>pre. trace e' = trace ?p @ pre @ drained (pipe_out ?s) \<and>
             (\<forall>w d. Sendto w d \<notin> set pre) \<and> session e' = Some (?s\<lparr>pipe_out := []\<rparr>)"
    using send_disabled_drains [OF h3, of ?s "\<lambda>c. True" e'] h4 h5 by blast
  from a b h5 show ?thesis
    by (simp add: example_engine_def accepting_session_def)
qed

section \<open>What \<^verbatim>\<open>plug\<close> binds\<close>

lemma out_event_send_trace:
  "out_event_send os n g b e = (out, e') \<Longrightarrow>
   \<exists>new. trace e' = trace e @ new \<and> (\<forall>x. Bind x \<notin> set new)"
  by (auto simp: out_event_send_def Let_def msg_close_def emit_def)

lemma out_event_trace:
  assumes "out_event os e = (out, e')"
  shows "\<exists>new. trace e' = trace e @ new \<and> (\<forall>x. Bind x \<notin> set new)"
proof (cases "session e")
  case None
  with assms have "e' = e" by (simp add: out_event_def)
  then show ?thesis by (intro exI [of _ "[]"]) simp
next
  case (Some s)
  show ?thesis
  proof (cases "pipe_out s")
    case Nil
    with Some assms show ?thesis
      by (auto simp: out_event_def pull_msg_def emit_def reset_pollout_def)
  next
    case (Cons g ms)
    note g = this
    show ?thesis
    proof (cases ms)
      case Nil
      with g Some assms show ?thesis
        by (auto simp: out_event_def pull_msg_def emit_def Let_def)
    next
      case (Cons b rest)
      let ?e2 = "emit (Pull_msg (Some b))
               (emit (Pull_msg (Some g)) (e\<lparr>session := Some (s\<lparr>pipe_out := b # rest\<rparr>)\<rparr>)
                  \<lparr>session := Some (s\<lparr>pipe_out := rest\<rparr>)\<rparr>)"
      have t2: "trace ?e2 = trace e @ [Pull_msg (Some g), Pull_msg (Some b)]"
        by (simp add: emit_def)
      have "\<exists>new. trace e' = trace ?e2 @ new \<and> (\<forall>x. Bind x \<notin> set new)"
      proof (cases "raw_socket (options e)")
        case True
        obtain rc e3 where r: "resolve_raw_address (data g) ?e2 = (rc, e3)"
          by (cases "resolve_raw_address (data g) ?e2") blast
        note fr = resolve_raw_address_frame [OF r]
        show ?thesis
        proof (cases rc)
          case Ok
          show ?thesis
          proof (cases "memcpy_to (out_buffer e3) 0 (data b)")
            case None
            with Ok r True Some g Cons assms have "e' = e3"
              by (simp add: out_event_def pull_msg_def Let_def emit_def)
            with fr show ?thesis by (intro exI [of _ "[]"]) simp
          next
            case (Some buf)
            with Ok r True \<open>session e = Some s\<close> g Cons assms
            have "out_event_send os (length (data b)) g b (e3\<lparr>out_buffer := buf\<rparr>) = (out, e')"
              by (simp add: out_event_def pull_msg_def Let_def emit_def)
            from out_event_send_trace [OF this] fr show ?thesis by simp
          qed
        next
          case (Fail en)
          with r True Some g Cons assms have "e' = msg_close b (msg_close g e3)"
            by (simp add: out_event_def pull_msg_def Let_def emit_def)
          with fr show ?thesis by (simp add: msg_close_def emit_def)
        qed
      next
        case False
        show ?thesis
        proof (cases "out_event_frame (out_buffer ?e2) g b")
          case None
          with False Some g Cons assms have "e' = ?e2"
            by (simp add: out_event_def pull_msg_def Let_def emit_def)
          then show ?thesis by (intro exI [of _ "[]"]) simp
        next
          case (Some buf)
          with False \<open>session e = Some s\<close> g Cons assms
          have "out_event_send os (length (data g) + length (data b) + 1) g b (?e2\<lparr>out_buffer := buf\<rparr>) = (out, e')"
            by (simp add: out_event_def pull_msg_def Let_def emit_def)
          from out_event_send_trace [OF this] show ?thesis by (simp add: emit_def)
        qed
      qed
      with t2 show ?thesis by auto
    qed
  qed
qed

lemma restart_output_trace:
  assumes "restart_output os e = (out, e')"
  shows "\<exists>new. trace e' = trace e @ new \<and> (\<forall>x. Bind x \<notin> set new)"
proof (cases "send_enabled e")
  case True
  with assms have "out_event os (set_pollout e) = (out, e')" by (simp add: restart_output_def)
  from out_event_trace [OF this] show ?thesis by (simp add: set_pollout_def)
next
  case False
  show ?thesis
  proof (cases "session e")
    case None
    with False assms have "e' = e" by (simp add: restart_output_def)
    then show ?thesis by (intro exI [of _ "[]"]) simp
  next
    case (Some s)
    from assms restart_output_disabled [OF False Some, of os]
    have "trace e' = trace e @ drained (pipe_out s)" by auto
    then show ?thesis using drained_no_bind by blast
  qed
qed

lemma plug_send_trace:
  assumes "plug_send os e = (out, e')"
  shows "\<exists>new. trace e' = trace e @ new \<and> (\<forall>x. Bind x \<notin> set new)"
    and "address e' = address e" and "recv_enabled e' = recv_enabled e"
  using assms
  by (auto simp: plug_send_def must_def emit_def set_pollout_def Let_def
      split: if_splits option.splits)

lemma plug_recv_binds:
  assumes "plug_recv os e = (out, e')" and "address e = Some a"
  shows "\<exists>new. trace e' = trace e @ new \<and>
           (\<forall>x. Bind x \<in> set new \<longrightarrow> recv_enabled e \<and> x = real_bind_addr a) \<and>
           (recv_enabled e \<and> out = Returns \<longrightarrow> Bind (real_bind_addr a) \<in> set new)"
proof (cases "recv_enabled e")
  case False
  with assms have "e' = e" "out = Returns" by (simp_all add: plug_recv_def)
  with False show ?thesis by (intro exI [of _ "[]"]) simp
next
  case True
  let ?e1 = "emit (Setsockopt SO_REUSEADDR) e"
  let ?e2 = "emit (Bind (real_bind_addr a)) ?e1"
  show ?thesis
  proof (cases "os (Setsockopt SO_REUSEADDR)")
    case False
    with True assms have "e' = ?e1" "out = Aborts" by (simp_all add: plug_recv_def must_def)
    then show ?thesis by (intro exI [of _ "[Setsockopt SO_REUSEADDR]"]) (simp add: emit_def)
  next
    case reuse: True
    show ?thesis
    proof (cases "os (Bind (real_bind_addr a))")
      case False
      with True reuse assms have "e' = ?e2" "out = Aborts"
        by (simp_all add: plug_recv_def must_def emit_def)
      then show ?thesis using True
        by (intro exI [of _ "[Setsockopt SO_REUSEADDR, Bind (real_bind_addr a)]"]) (simp add: emit_def)
    next
      case bnd: True
      obtain oj e3 where j: "(if is_mcast a then plug_join os a ?e2 else (Returns, ?e2)) = (oj, e3)"
        by (cases "if is_mcast a then plug_join os a ?e2 else (Returns, ?e2)") blast
      then obtain new where new: "trace e3 = trace ?e2 @ new" "\<forall>x. Bind x \<notin> set new"
        using plug_join_trace [of os a ?e2 oj e3]
        by (cases "is_mcast a") (auto simp: emit_def)
      have "\<exists>new'. trace e' = trace e3 @ new' \<and> (\<forall>x. Bind x \<notin> set new')"
      proof (cases "oj = Returns")
        case True
        with \<open>recv_enabled e\<close> reuse bnd assms j
        have "restart_output os (set_pollin e3) = (out, e')"
          by (auto simp: plug_recv_def must_def emit_def split: if_splits)
        from restart_output_trace [OF this] show ?thesis by (simp add: set_pollin_def)
      next
        case False
        with \<open>recv_enabled e\<close> reuse bnd assms j have "e' = e3"
          by (auto simp: plug_recv_def must_def emit_def split: if_splits outcome.splits)
        then show ?thesis by (intro exI [of _ "[]"]) simp
      qed
      then obtain new' where new': "trace e' = trace e3 @ new'" "\<forall>x. Bind x \<notin> set new'" by blast
      have "trace e' = trace e @ ([Setsockopt SO_REUSEADDR, Bind (real_bind_addr a)] @ new @ new')"
        using new(1) new'(1) by (simp add: emit_def)
      moreover have "\<forall>x. Bind x \<in> set ([Setsockopt SO_REUSEADDR, Bind (real_bind_addr a)] @ new @ new')
                        \<longrightarrow> recv_enabled e \<and> x = real_bind_addr a"
        using new(2) new'(2) True by auto
      moreover have "Bind (real_bind_addr a) \<in> set ([Setsockopt SO_REUSEADDR, Bind (real_bind_addr a)] @ new @ new')"
        by simp
      ultimately show ?thesis by blast
    qed
  qed
qed

lemma plug_binds:
  assumes "plug os ss e = (out, e')" and "address e = Some a"
  shows "\<exists>new. trace e' = trace e @ new \<and>
           (\<forall>x. Bind x \<in> set new \<longrightarrow> recv_enabled e \<and> x = real_bind_addr a) \<and>
           (recv_enabled e \<and> out = Returns \<longrightarrow> Bind (real_bind_addr a) \<in> set new)"
proof (cases "plugged e \<or> session e \<noteq> None \<or> ss = None")
  case True
  with assms(1) have "trace e' = trace e \<and> out = Aborts"
    by (cases ss) (auto simp: plug_def Let_def split: if_splits)
  then show ?thesis by (intro exI [of _ "[]"]) simp
next
  case False
  then obtain s where s: "ss = Some s" "\<not> plugged e" "session e = None" by auto
  define e2 where "e2 = emit Add_fd (e\<lparr>plugged := True, session := Some s\<rparr>)"
  define e3 where "e3 = (if bound_device (options e2) \<noteq> []
                         then emit (Bind_to_device (bound_device (options e2))) e2 else e2)"
  have pl: "plug os ss e = (case plug_send os e3 of (Returns, e4) \<Rightarrow> plug_recv os e4 | bad \<Rightarrow> bad)"
    using s by (simp add: plug_def Let_def e2_def e3_def)
  obtain pre0 where pre0: "trace e3 = trace e @ pre0" "\<forall>x. Bind x \<notin> set pre0"
    by (cases "bound_device (options e2) \<noteq> []") (auto simp: emit_def e2_def e3_def)
  have f3: "address e3 = Some a" "recv_enabled e3 = recv_enabled e"
    using assms(2) by (simp_all add: emit_def e2_def e3_def)
  obtain o4 e4 where ps: "plug_send os e3 = (o4, e4)"
    by (cases "plug_send os e3") blast
  from plug_send_trace [OF ps] f3 obtain new4 where
    new4: "trace e4 = trace e3 @ new4" "\<forall>x. Bind x \<notin> set new4"
      and f4: "address e4 = Some a" "recv_enabled e4 = recv_enabled e" by auto
  show ?thesis
  proof (cases "o4 = Returns")
    case False
    with ps assms(1) have "e' = e4" "out = o4"
      unfolding pl by (cases o4; simp)+
    with new4 pre0 False show ?thesis
      by (intro exI [of _ "pre0 @ new4"]) simp
  next
    case True
    with ps assms(1) have "plug_recv os e4 = (out, e')"
      unfolding pl by simp
    from plug_recv_binds [OF this f4(1)] f4(2) obtain new where
      new: "trace e' = trace e4 @ new"
           "\<forall>x. Bind x \<in> set new \<longrightarrow> recv_enabled e \<and> x = real_bind_addr a"
           "recv_enabled e \<and> out = Returns \<longrightarrow> Bind (real_bind_addr a) \<in> set new"
      by auto
    have "trace e' = trace e @ (pre0 @ new4 @ new)"
      using new(1) new4(1) pre0(1) by simp
    moreover have "\<forall>x. Bind x \<in> set (pre0 @ new4 @ new) \<longrightarrow> recv_enabled e \<and> x = real_bind_addr a"
      using new(2) new4(2) pre0(2) by auto
    moreover have "recv_enabled e \<and> out = Returns \<longrightarrow> Bind (real_bind_addr a) \<in> set (pre0 @ new4 @ new)"
      using new(3) by auto
    ultimately show ?thesis by blast
  qed
qed

lemma real_bind_addr_eq:
  "real_bind_addr a =
     (if is_mcast a
      then \<lparr>ip_family = ip_family (bind_addr a), ip_host = 0, ip_port = ip_port (bind_addr a)\<rparr>
      else bind_addr a)"
  by (simp add: real_bind_addr_def any_def set_port_def port_def)

text \<open>
  C8 (multicast bind targets the wildcard). Every \<open>Bind\<close> that \<open>plug\<close> adds to the
  trace happens with receiving enabled and targets, for a resolved address flagged
  multicast, the all-zero address of the family of the bind address with the port of
  the bind address, and for any other address the bind address itself; and when
  receiving is enabled and \<open>plug\<close> returns, that \<open>Bind\<close> has been issued.
\<close>

theorem multicast_bind_wildcard:
  assumes "plug os ss e = (out, e')" and "address e = Some a"
  shows "(\<forall>x. Bind x \<in> set (trace e') \<longrightarrow>
            Bind x \<in> set (trace e) \<or>
            recv_enabled e \<and>
            x = (if is_mcast a
                 then \<lparr>ip_family = ip_family (bind_addr a), ip_host = 0,
                       ip_port = ip_port (bind_addr a)\<rparr>
                 else bind_addr a)) \<and>
         (recv_enabled e \<and> out = Returns \<longrightarrow>
            Bind (if is_mcast a
                  then \<lparr>ip_family = ip_family (bind_addr a), ip_host = 0,
                        ip_port = ip_port (bind_addr a)\<rparr>
                  else bind_addr a) \<in> set (trace e'))"
proof -
  from plug_binds [OF assms] obtain new where
    new: "trace e' = trace e @ new"
         "\<forall>x. Bind x \<in> set new \<longrightarrow> recv_enabled e \<and> x = real_bind_addr a"
         "recv_enabled e \<and> out = Returns \<longrightarrow> Bind (real_bind_addr a) \<in> set new"
    by blast
  have a: "\<forall>x. Bind x \<in> set (trace e') \<longrightarrow>
             Bind x \<in> set (trace e) \<or> recv_enabled e \<and> x = real_bind_addr a"
    using new(1,2) by auto
  have b: "recv_enabled e \<and> out = Returns \<longrightarrow> Bind (real_bind_addr a) \<in> set (trace e')"
    using new(1,3) by auto
  from a b show ?thesis
    unfolding real_bind_addr_eq [symmetric] by blast
qed

theorem multicast_bind_wildcard_witness:
  "\<exists>e'. plug (\<lambda>c. True) (Some (accepting_session []))
            ((example_engine False None)\<lparr>plugged := False\<rparr>) = (Returns, e') \<and>
        (\<forall>x. Bind x \<in> set (trace e') \<longrightarrow>
               x = \<lparr>ip_family = AF_INET, ip_host = 0, ip_port = 5555\<rparr>) \<and>
        Bind \<lparr>ip_family = AF_INET, ip_host = 0, ip_port = 5555\<rparr> \<in> set (trace e')"
proof -
  let ?p = "(example_engine False None)\<lparr>plugged := False\<rparr>"
  let ?s = "accepting_session []"
  have im: "is_multicast \<lparr>ip_family = AF_INET, ip_host = 0xEF000001, ip_port = 5555\<rparr>"
    by (simp add: is_multicast_def)
  obtain e' where h1: "plug (\<lambda>c. True) (Some ?s) ?p = (Returns, e')"
    using im
    by (simp add: plug_def plug_send_def plug_recv_def plug_join_def must_def Let_def
        example_engine_def example_address_def restart_output_def emit_def set_pollin_def
        set_pollout_def out_event_def pull_msg_def accepting_session_def reset_pollout_def)
  have h2: "address ?p = Some example_address" by (simp add: example_engine_def)
  from multicast_bind_wildcard [OF h1 h2] h1 show ?thesis
    by (simp add: example_engine_def example_address_def)
qed

section \<open>Framing\<close>

lemma out_event_frame_eq:
  assumes "1 + length (data g) + length (data b) \<le> length buf"
  shows "out_event_frame buf g b =
           Some (char_of (length (data g)) # data g @ data b @
                 drop (1 + length (data g) + length (data b)) buf)"
proof -
  obtain c buf' where buf: "buf = c # buf'" using assms by (cases buf) auto
  show ?thesis using assms
    by (simp add: out_event_frame_def memcpy_to_def Let_def buf add.commute)
qed

lemma out_dest_frame [simp]:
  "out_dest (e\<lparr>session := x, out_buffer := y, trace := z\<rparr>) = out_dest e"
  by (simp add: out_dest_def split: out_ptr.splits)

lemma out_event_framed:
  assumes "session e = Some s" "pipe_out s = g # b # rest" "\<not> raw_socket (options e)"
      and "1 + length (data g) + length (data b) \<le> length (out_buffer e)"
  shows "out_event os e =
     (let w = char_of (length (data g)) # data g @ data b;
          call = Sendto w (out_dest e)
      in (if os call then Returns else Aborts,
          e\<lparr>session := Some (s\<lparr>pipe_out := rest\<rparr>),
            out_buffer := w @ drop (length w) (out_buffer e),
            trace := trace e @ [Pull_msg (Some g), Pull_msg (Some b), Close g, Close b, call]\<rparr>))"
  using assms
  by (simp add: out_event_def pull_msg_def Let_def out_event_frame_eq out_event_send_def
      msg_close_def emit_def)

text \<open>
  C1 (framing round trip). For a group of at most 255 bytes and a body such that
  \<open>1 + length group + length body\<close> fits the send buffer of the sender and the receive
  buffer of the receiver, framed \<open>out_event\<close> sends the datagram made of the length
  byte, the group and the body, and framed \<open>in_event\<close> on that datagram pushes the same
  group (with the \<^verbatim>\<open>more\<close> flag) and the same body to an accepting session, and
  flushes.
\<close>

theorem framing_round_trip:
  assumes "session e = Some s" and "pipe_out s = g # b # rest" and "\<not> raw_socket (options e)"
      and "length (data g) \<le> 255"
      and "1 + length (data g) + length (data b) \<le> length (out_buffer e)"
      and "session r = Some s'" and "\<not> raw_socket (options r)"
      and "1 + length (data g) + length (data b) \<le> length (in_buffer r)"
      and "accepts s' (trace r) \<lparr>data = data g, flag_more = True\<rparr>"
      and "accepts s' (trace r @ [Push_msg \<lparr>data = data g, flag_more = True\<rparr> True, Close msg_init])
             \<lparr>data = data b, flag_more = False\<rparr>"
    shows "\<exists>w d r'.
             w = char_of (length (data g)) # data g @ data b \<and>
             trace (snd (out_event os e)) =
               trace e @ [Pull_msg (Some g), Pull_msg (Some b), Close g, Close b, Sendto w d] \<and>
             in_event (Recv_dgram w a) r = (Returns, r') \<and>
             trace r' =
               trace r @ [Push_msg \<lparr>data = data g, flag_more = True\<rparr> True, Close msg_init,
                          Push_msg \<lparr>data = data b, flag_more = False\<rparr> True, Close msg_init,
                          Flush]"
proof -
  let ?w = "char_of (length (data g)) # data g @ data b"
  have snd: "trace (snd (out_event os e)) =
               trace e @ [Pull_msg (Some g), Pull_msg (Some b), Close g, Close b, Sendto ?w (out_dest e)]"
    using out_event_framed [OF assms(1,2,3,5), of os] by (simp add: Let_def)
  have gl: "(of_char (char_of (length (data g))) :: nat) = length (data g)"
    using assms(4) by simp
  have nb: "min (length ?w) (length (in_buffer r)) = length ?w"
    using assms(8) by simp
  let ?r1 = "r\<lparr>in_buffer := ?w @ drop (length ?w) (in_buffer r)\<rparr>"
  have s1: "session ?r1 = Some s'" using assms(6) by simp
  have le: "length (data g) \<le> length (in_buffer r) - Suc 0"
    using assms(8) by simp
  have "in_event (Recv_dgram ?w a) r =
          in_event_push \<lparr>data = data g, flag_more = True\<rparr> (length (data b)) (1 + length (data g)) ?r1"
    using assms(7,8) gl le
    by (simp add: in_event_def Let_def memcpy_from_def)
  also have "\<dots> = (Returns, ?r1\<lparr>trace := trace ?r1 @
                 [Push_msg \<lparr>data = data g, flag_more = True\<rparr> True, Close msg_init,
                  Push_msg \<lparr>data = data b, flag_more = False\<rparr> True, Close msg_init, Flush]\<rparr>)"
    using assms(6,8,9,10)
    by (simp add: in_event_push_eq [where s = s'] Let_def)
  finally show ?thesis using snd by auto
qed

theorem framing_round_trip_witness:
  "\<exists>d r'.
     trace (snd (out_event (\<lambda>c. True)
        (example_engine False (Some (accepting_session
           [\<lparr>data = ''ab'', flag_more = True\<rparr>, \<lparr>data = ''cde'', flag_more = False\<rparr>]))))) =
       [Pull_msg (Some \<lparr>data = ''ab'', flag_more = True\<rparr>),
        Pull_msg (Some \<lparr>data = ''cde'', flag_more = False\<rparr>),
        Close \<lparr>data = ''ab'', flag_more = True\<rparr>, Close \<lparr>data = ''cde'', flag_more = False\<rparr>,
        Sendto (char_of (2 :: nat) # ''abcde'') d] \<and>
     in_event (Recv_dgram (char_of (2 :: nat) # ''abcde'') example_peer)
        (example_engine False (Some (accepting_session []))) = (Returns, r') \<and>
     trace r' =
       [Push_msg \<lparr>data = ''ab'', flag_more = True\<rparr> True, Close msg_init,
        Push_msg \<lparr>data = ''cde'', flag_more = False\<rparr> True, Close msg_init, Flush]"
proof -
  let ?g = "\<lparr>data = ''ab'', flag_more = True\<rparr>"
  let ?b = "\<lparr>data = ''cde'', flag_more = False\<rparr>"
  let ?s = "accepting_session [?g, ?b]"
  let ?e = "example_engine False (Some ?s)"
  let ?s' = "accepting_session []"
  let ?r = "example_engine False (Some ?s')"
  have h1: "session ?e = Some ?s" by (simp add: example_engine_def)
  have h2: "pipe_out ?s = ?g # ?b # []" by (simp add: accepting_session_def)
  have h3: "\<not> raw_socket (options ?e)" by (simp add: example_engine_def)
  have h4: "length (data ?g) \<le> 255" by simp
  have h5: "1 + length (data ?g) + length (data ?b) \<le> length (out_buffer ?e)"
    by (simp add: example_engine_def)
  have h6: "session ?r = Some ?s'" by (simp add: example_engine_def)
  have h7: "\<not> raw_socket (options ?r)" by (simp add: example_engine_def)
  have h8: "1 + length (data ?g) + length (data ?b) \<le> length (in_buffer ?r)"
    by (simp add: example_engine_def)
  have h9: "accepts ?s' (trace ?r) \<lparr>data = data ?g, flag_more = True\<rparr>"
    by (simp add: accepting_session_def)
  have h10: "accepts ?s' (trace ?r @ [Push_msg \<lparr>data = data ?g, flag_more = True\<rparr> True, Close msg_init])
               \<lparr>data = data ?b, flag_more = False\<rparr>"
    by (simp add: accepting_session_def)
  from framing_round_trip [OF h1 h2 h3 h4 h5 h6 h7 h8 h9 h10, of "\<lambda>c. True" example_peer]
  show ?thesis by (simp add: example_engine_def eval_nat_numeral)
qed

section \<open>Decimal texts and what the parsers read from them\<close>

lemma of_char_digit_char: "d < 10 \<Longrightarrow> (of_char (digit_char d) :: nat) = 48 + d"
  by (simp add: digit_char_def)

lemma digit_of_digit_char: "d < 10 \<Longrightarrow> digit_of 10 (digit_char d) = Some d"
  by (simp add: digit_of_def of_char_digit_char Let_def)


lemma strto_digits_dec_str:
  "strto_digits 10 acc (dec_str n @ rest) =
   strto_digits 10 (acc * 10 ^ length (dec_str n) + n) rest"
proof (induction n arbitrary: acc rest rule: dec_str.induct)
  case (1 n)
  show ?case
  proof (cases "n < 10")
    case True
    then show ?thesis
      by (simp add: dec_str.simps [of n] digit_of_digit_char)
  next
    case False
    have m: "n mod 10 < 10" by simp
    have "strto_digits 10 acc (dec_str n @ rest) =
          strto_digits 10 acc (dec_str (n div 10) @ digit_char (n mod 10) # rest)"
      using False by (simp add: dec_str.simps [of n])
    also have "\<dots> = strto_digits 10 (acc * 10 ^ length (dec_str (n div 10)) + n div 10)
                        (digit_char (n mod 10) # rest)"
      using False by (rule "1.IH")
    also have "\<dots> = strto_digits 10
                        ((acc * 10 ^ length (dec_str (n div 10)) + n div 10) * 10 + n mod 10) rest"
      by (simp add: digit_of_digit_char [OF m])
    also have "(acc * 10 ^ length (dec_str (n div 10)) + n div 10) * 10 + n mod 10 =
               acc * 10 ^ length (dec_str n) + n"
      using False by (simp add: dec_str.simps [of n] algebra_simps)
    finally show ?thesis .
  qed
qed

lemma strto_digits_stop:
  "rest = [] \<or> digit_of base (hd rest) = None \<Longrightarrow> strto_digits base acc rest = (acc, rest)"
  by (cases rest) auto

lemma strto_digits_dec_str_stop:
  assumes "rest = [] \<or> digit_of 10 (hd rest) = None"
  shows "strto_digits 10 0 (dec_str n @ rest) = (n, rest)"
  using assms by (simp add: strto_digits_dec_str strto_digits_stop)

lemma dec_str_head:
  "\<exists>d ds. dec_str n = digit_char d # ds \<and> d < 10 \<and> (d = 0 \<longrightarrow> n = 0 \<and> ds = [])"
proof (induction n rule: dec_str.induct)
  case (1 n)
  show ?case
  proof (cases "n < 10")
    case True
    then show ?thesis
      by (intro exI [of _ n] exI [of _ "[]"]) (simp add: dec_str.simps [of n])
  next
    case False
    with "1.IH" obtain d ds where
      d: "dec_str (n div 10) = digit_char d # ds" "d < 10" "d = 0 \<longrightarrow> n div 10 = 0 \<and> ds = []"
      by blast
    from False have "n div 10 \<noteq> 0" by simp
    with d have "d \<noteq> 0" by blast
    with d False show ?thesis
      by (intro exI [of _ d] exI [of _ "ds @ [digit_char (n mod 10)]"])
         (simp add: dec_str.simps [of n])
  qed
qed

lemma dec_str_digits: "c \<in> set (dec_str n) \<Longrightarrow> \<exists>d < 10. c = digit_char d"
proof (induction n rule: dec_str.induct)
  case (1 n)
  show ?case
  proof (cases "n < 10")
    case True
    with "1.prems" have "c = digit_char n" by (simp add: dec_str.simps [of n])
    with True show ?thesis by blast
  next
    case False
    have m: "n mod 10 < 10" by simp
    from False "1.prems" have "c \<in> set (dec_str (n div 10)) \<or> c = digit_char (n mod 10)"
      by (auto simp: dec_str.simps [of n])
    then show ?thesis
    proof
      assume "c \<in> set (dec_str (n div 10))"
      with False show ?thesis by (rule "1.IH")
    next
      assume "c = digit_char (n mod 10)"
      with m show ?thesis by blast
    qed
  qed
qed

lemma char_neqI: "(of_char a :: nat) \<noteq> of_char b \<Longrightarrow> a \<noteq> b"
  by auto

lemma digit_char_neq:
  assumes "d < 10"
  shows "digit_char d \<noteq> CHR '':''" "digit_char d \<noteq> NUL" "digit_char d \<noteq> CHR ''.''"
        "digit_char d \<noteq> CHR ''-''" "digit_char d \<noteq> CHR ''+''" "\<not> isspace (digit_char d)"
        "digit_char d = CHR ''0'' \<longleftrightarrow> d = 0"
proof -
  have k: "(of_char (digit_char d) :: nat) = 48 + d" using assms by (rule of_char_digit_char)
  show "digit_char d \<noteq> CHR '':''" using k assms by (intro char_neqI) simp
  show "digit_char d \<noteq> NUL" using k by (intro char_neqI) (simp add: NUL_def)
  show "digit_char d \<noteq> CHR ''.''" using k by (intro char_neqI) simp
  show "digit_char d \<noteq> CHR ''-''" using k by (intro char_neqI) simp
  show "digit_char d \<noteq> CHR ''+''" using k by (intro char_neqI) simp
  show "\<not> isspace (digit_char d)" using k by (simp add: isspace_def)
  have "digit_char d = CHR ''0'' \<longleftrightarrow> (of_char (digit_char d) :: nat) = of_char CHR ''0''"
    by (simp only: of_char_eq_iff)
  then show "digit_char d = CHR ''0'' \<longleftrightarrow> d = 0" using k by simp
qed








lemma digit_of_in_base:
  assumes "b = 8 \<or> b = 10 \<or> b = 16"
  shows "digit_of b c = (if in_base b c then Some (digit_value c) else None)"
  using assms by (auto simp: digit_of_def in_base_def digit_value_def Let_def)

lemma strto_digits_consumed:
  assumes "b = 8 \<or> b = 10 \<or> b = 16" and "strto_digits b acc s = (v, endp)"
  shows "\<exists>q. s = q @ endp \<and> list_all (in_base b) q \<and> v = base_value b acc q \<and>
             (s \<noteq> [] \<and> in_base b (hd s) \<longrightarrow> q \<noteq> [])"
  using assms(2)
proof (induction s arbitrary: acc)
  case Nil
  then show ?case by (simp add: base_value_def)
next
  case (Cons c cs)
  show ?case
  proof (cases "in_base b c")
    case False
    with Cons.prems assms(1) have "v = acc" "endp = c # cs"
      by (simp_all add: digit_of_in_base)
    with False show ?thesis by (intro exI [of _ "[]"]) (simp add: base_value_def)
  next
    case True
    with Cons.prems assms(1)
    have "strto_digits b (acc * b + digit_value c) cs = (v, endp)"
      by (simp add: digit_of_in_base)
    from Cons.IH [OF this] obtain q where
      q: "cs = q @ endp" "list_all (in_base b) q" "v = base_value b (acc * b + digit_value c) q"
      by blast
    with True show ?thesis
      by (intro exI [of _ "c # q"]) (simp add: base_value_def)
  qed
qed

lemma in_base_plain: "in_base b c \<Longrightarrow> c \<noteq> CHR ''.'' \<and> \<not> isspace c \<and> c \<noteq> CHR ''x'' \<and> c \<noteq> CHR ''X''"
  by (auto simp: in_base_def isspace_def Let_def)

lemma in_base_8_16: "in_base 8 c \<Longrightarrow> in_base 16 c"
  by (auto simp: in_base_def Let_def)

lemma isdigit_in_base: "isdigit c \<Longrightarrow> in_base 10 c \<and> in_base 16 c"
  by (auto simp: in_base_def isdigit_def Let_def)

lemma in_base_0: "in_base 8 CHR ''0''" "digit_value CHR ''0'' = 0"
  by (simp_all add: in_base_def digit_value_def)

lemma plain_list: "list_all (in_base b) q \<Longrightarrow> \<forall>x\<in>set q. x \<noteq> CHR ''.'' \<and> \<not> isspace x"
  using in_base_plain by (auto simp: list_all_iff)

lemma consumed_16:
  assumes "strto_digits 16 acc s = (v, endp)"
  shows "\<exists>q. s = q @ endp \<and> list_all (in_base 16) q \<and> v = base_value 16 acc q \<and>
             (s \<noteq> [] \<and> in_base 16 (hd s) \<longrightarrow> q \<noteq> [])"
  by (rule strto_digits_consumed [OF _ assms]) simp

lemma consumed_8:
  assumes "strto_digits 8 acc s = (v, endp)"
  shows "\<exists>q. s = q @ endp \<and> list_all (in_base 8) q \<and> v = base_value 8 acc q \<and>
             (s \<noteq> [] \<and> in_base 8 (hd s) \<longrightarrow> q \<noteq> [])"
  by (rule strto_digits_consumed [OF _ assms]) simp

lemma consumed_10:
  assumes "strto_digits 10 acc s = (v, endp)"
  shows "\<exists>q. s = q @ endp \<and> list_all (in_base 10) q \<and> v = base_value 10 acc q \<and>
             (s \<noteq> [] \<and> in_base 10 (hd s) \<longrightarrow> q \<noteq> [])"
  by (rule strto_digits_consumed [OF _ assms]) simp

lemma hex_prefixD:
  assumes "hex_prefix cp"
  shows "\<exists>x h rest. cp = CHR ''0'' # x # h # rest \<and> (x = CHR ''x'' \<or> x = CHR ''X'') \<and> in_base 16 h"
proof -
  from assms obtain c0 x h rest where cp: "cp = c0 # x # h # rest"
    by (cases cp; cases "tl cp"; cases "tl (tl cp)") (auto simp: hex_prefix_def)
  with assms have "c0 = CHR ''0''" "x = CHR ''x'' \<or> x = CHR ''X''" "digit_of 16 h \<noteq> None"
    by (simp_all add: hex_prefix_def)
  moreover from this(3) have "in_base 16 h"
    by (simp add: digit_of_in_base split: if_splits)
  ultimately show ?thesis using cp by blast
qed

lemma c_numeral_hex:
  assumes "x = CHR ''x'' \<or> x = CHR ''X''" and "q \<noteq> []" and "list_all (in_base 16) q"
  shows "c_numeral (CHR ''0'' # x # q) = Some (base_value 16 0 q)"
  using assms unfolding c_numeral_def by simp

lemma c_numeral_octal:
  assumes "list_all (in_base 8) q'"
  shows "c_numeral (CHR ''0'' # q') = Some (base_value 8 0 q')"
proof (cases q')
  case Nil
  then show ?thesis by (simp add: c_numeral_def base_value_def)
next
  case (Cons y ys)
  with assms have "in_base 8 y" by simp
  then have "y \<noteq> CHR ''x''" "y \<noteq> CHR ''X''" using in_base_plain by blast+
  with Cons assms show ?thesis unfolding c_numeral_def by simp
qed

lemma c_numeral_decimal:
  assumes "c \<noteq> CHR ''0''" and "list_all (in_base 10) (c # q')"
  shows "c_numeral (c # q') = Some (base_value 10 0 (c # q'))"
  using assms unfolding c_numeral_def by simp

lemma plain_x: "x = CHR ''x'' \<or> x = CHR ''X'' \<Longrightarrow> x \<noteq> CHR ''.'' \<and> \<not> isspace x"
  by (auto simp: isspace_def)

lemma plain_0: "CHR ''0'' \<noteq> CHR ''.'' \<and> \<not> isspace CHR ''0''"
  by (simp add: isspace_def)

lemma strtoul0_numeral:
  assumes "isdigit c" and "strtoul0 (c # cs) = (ul, endp)"
  shows "\<exists>p. c # cs = p @ endp \<and> c_numeral p = Some ul \<and>
             (\<forall>x\<in>set p. x \<noteq> CHR ''.'' \<and> \<not> isspace x)"
proof (cases "hex_prefix (c # cs)")
  case True
  from hex_prefixD [OF True] obtain x h rest where cs: "c # cs = CHR ''0'' # x # h # rest"
    and x: "x = CHR ''x'' \<or> x = CHR ''X''" and hb: "in_base 16 h"
    by blast
  from cs have dr: "drop 2 (c # cs) = h # rest" by simp
  from True assms(2) have "strto_digits 16 0 (drop 2 (c # cs)) = (ul, endp)"
    by (simp only: strtoul0_def if_True)
  then have "strto_digits 16 0 (h # rest) = (ul, endp)" by (simp only: dr)
  from consumed_16 [OF this] hb obtain q where
    q: "h # rest = q @ endp" "list_all (in_base 16) q" "ul = base_value 16 0 q" "q \<noteq> []"
    by auto
  have "c # cs = (CHR ''0'' # x # q) @ endp" using cs q(1) by simp
  moreover have "c_numeral (CHR ''0'' # x # q) = Some ul"
    using c_numeral_hex [OF x q(4,2)] q(3) by simp
  moreover have "\<forall>y\<in>set (CHR ''0'' # x # q). y \<noteq> CHR ''.'' \<and> \<not> isspace y"
    using plain_x [OF x] plain_0 plain_list [OF q(2)] by simp
  ultimately show ?thesis by blast
next
  case False
  note nohex = this
  show ?thesis
  proof (cases "c = CHR ''0''")
    case True
    with nohex assms(2) have "strto_digits 8 0 (CHR ''0'' # cs) = (ul, endp)"
      by (simp add: strtoul0_def del: strto_digits.simps)
    from consumed_8 [OF this] in_base_0(1) obtain q where
      q: "CHR ''0'' # cs = q @ endp" "list_all (in_base 8) q" "ul = base_value 8 0 q" "q \<noteq> []"
      by auto
    then obtain q' where q': "q = CHR ''0'' # q'" by (cases q) auto
    with q(2) have o: "list_all (in_base 8) q'" by simp
    have v: "ul = base_value 8 0 q'"
      using q(3) q' by (simp add: base_value_def in_base_0(2))
    have "c_numeral q = Some ul"
      using c_numeral_octal [OF o] v q' by simp
    with q(1) True plain_list [OF q(2)] show ?thesis by blast
  next
    case False
    with nohex assms(2) have "strto_digits 10 0 (c # cs) = (ul, endp)"
      by (simp add: strtoul0_def del: strto_digits.simps)
    from consumed_10 [OF this] isdigit_in_base [OF assms(1)] obtain q where
      q: "c # cs = q @ endp" "list_all (in_base 10) q" "ul = base_value 10 0 q" "q \<noteq> []"
      by auto
    then obtain q' where q': "q = c # q'" by (cases q) auto
    have "c_numeral q = Some ul"
      using c_numeral_decimal [OF False] q(2,3) q' by simp
    with q(1) plain_list [OF q(2)] show ?thesis by blast
  qed
qed

lemma split_dots_plain:
  "\<forall>x\<in>set p. x \<noteq> CHR ''.'' \<Longrightarrow> split_dots (p @ CHR ''.'' # t) = p # split_dots t"
  by (induction p) auto

lemma split_dots_single: "\<forall>x\<in>set p. x \<noteq> CHR ''.'' \<Longrightarrow> split_dots p = [p]"
  by (induction p) auto

lemma takeWhile_plain:
  "\<forall>x\<in>set p. \<not> isspace x \<Longrightarrow>
   takeWhile (\<lambda>c. \<not> isspace c) (p @ t) = p @ takeWhile (\<lambda>c. \<not> isspace c) t"
  by (induction p) auto

lemma max_below: "k \<le> 3 \<Longrightarrow> ul \<le> inet_aton_max k \<longleftrightarrow> ul < 256 ^ (4 - k)"
proof -
  assume "k \<le> 3"
  then have "k = 0 \<or> k = 1 \<or> k = 2 \<or> k = 3" by auto
  then show ?thesis
    by (elim disjE) (auto simp: inet_aton_max_def)
qed

lemma notation_last:
  assumes "c_numeral p = Some ul" and "\<forall>x\<in>set p. x \<noteq> CHR ''.'' \<and> \<not> isspace x"
      and "t = [] \<or> isspace (hd t)" and "k \<le> 3" and "ul \<le> inet_aton_max k"
  shows "inet_notation_from k (p @ t)"
proof -
  have "takeWhile (\<lambda>c. \<not> isspace c) t = []" using assms(3) by (cases t) auto
  then have "takeWhile (\<lambda>c. \<not> isspace c) (p @ t) = p"
    using assms(2) by (simp add: takeWhile_plain)
  moreover have "split_dots p = [p]" using assms(2) by (simp add: split_dots_single)
  moreover have "ul < 256 ^ (4 - k)" using assms(4,5) by (simp add: max_below)
  ultimately show ?thesis
    using assms(1,4) by (simp add: inet_notation_from_def numeral_below_def)
qed

lemma notation_dot:
  assumes "c_numeral p = Some ul" and "\<forall>x\<in>set p. x \<noteq> CHR ''.'' \<and> \<not> isspace x"
      and "ul \<le> 255" and "inet_notation_from (Suc k) t"
  shows "inet_notation_from k (p @ CHR ''.'' # t)"
proof -
  let ?tw = "takeWhile (\<lambda>c. \<not> isspace c)"
  have ns: "\<not> isspace CHR ''.''" by (simp add: isspace_def)
  have "?tw (p @ CHR ''.'' # t) = p @ CHR ''.'' # ?tw t"
    using assms(2) ns by (simp add: takeWhile_plain)
  then have sp: "split_dots (?tw (p @ CHR ''.'' # t)) = p # split_dots (?tw t)"
    using assms(2) by (simp add: split_dots_plain)
  from assms(4) obtain l fs where
    r: "rev (split_dots (?tw t)) = l # fs" "Suc k + length fs \<le> 3"
       "list_all (numeral_below 256) fs" "numeral_below (256 ^ (4 - (Suc k + length fs))) l"
    by (auto simp: inet_notation_from_def split: list.splits)
  have "numeral_below 256 p" using assms(1,3) by (simp add: numeral_below_def)
  with r show ?thesis
    by (simp add: inet_notation_from_def sp)
qed

lemma inet_aton_loop_unfold:
  assumes "isdigit c" and "strtoul0 (c # cs) = (ul, endp)"
  shows "inet_aton_loop pp (c # cs) =
      (if ul > 0xffffffff then None
       else (case endp of
               [] \<Rightarrow> if ul > inet_aton_max (length pp) then None
                      else Some (inet_aton_word pp ul)
             | d # cp' \<Rightarrow>
                 if d = CHR ''.'' then
                   (if length pp > 2 \<or> ul > 0xff then None
                    else inet_aton_loop (pp @ [ul]) cp')
                 else if \<not> isspace d then None
                 else if ul > inet_aton_max (length pp) then None
                 else Some (inet_aton_word pp ul)))"
  using assms by (subst inet_aton_loop.simps) simp

lemma inet_aton_loop_digit:
  assumes "inet_aton_loop pp cp = Some v"
  shows "\<exists>c cs. cp = c # cs \<and> isdigit c"
proof (cases cp)
  case Nil
  with assms show ?thesis by (subst (asm) inet_aton_loop.simps) simp
next
  case (Cons c cs)
  with assms have "isdigit c"
    by (subst (asm) inet_aton_loop.simps) (simp split: if_splits)
  with Cons show ?thesis by blast
qed

lemma inet_aton_loop_notation:
  "inet_aton_loop pp cp = Some v \<Longrightarrow> length pp \<le> 3 \<Longrightarrow> inet_notation_from (length pp) cp"
proof (induction "3 - length pp" arbitrary: pp cp v)
  case 0
  then have l3: "length pp = 3" by simp
  from inet_aton_loop_digit [OF "0.prems"(1)] obtain c cs where
    cp: "cp = c # cs" and dg: "isdigit c" by blast
  obtain ul endp where st: "strtoul0 (c # cs) = (ul, endp)"
    by (cases "strtoul0 (c # cs)") blast
  from strtoul0_numeral [OF dg st] obtain p where
    p: "c # cs = p @ endp" "c_numeral p = Some ul" "\<forall>x\<in>set p. x \<noteq> CHR ''.'' \<and> \<not> isspace x"
    by blast
  note unf = inet_aton_loop_unfold [OF dg st, of pp]
  from "0.prems"(1) have run: "inet_aton_loop pp (c # cs) = Some v" by (simp only: cp)
  have "(endp = [] \<or> isspace (hd endp)) \<and> ul \<le> inet_aton_max (length pp)"
    using run l3 unfolding unf by (cases endp) (simp_all split: if_splits)
  with notation_last [OF p(2,3) _ "0.prems"(2), of endp] p(1) cp
  show ?case by simp
next
  case (Suc n)
  from inet_aton_loop_digit [OF Suc.prems(1)] obtain c cs where
    cp: "cp = c # cs" and dg: "isdigit c" by blast
  obtain ul endp where st: "strtoul0 (c # cs) = (ul, endp)"
    by (cases "strtoul0 (c # cs)") blast
  from strtoul0_numeral [OF dg st] obtain p where
    p: "c # cs = p @ endp" "c_numeral p = Some ul" "\<forall>x\<in>set p. x \<noteq> CHR ''.'' \<and> \<not> isspace x"
    by blast
  note unf = inet_aton_loop_unfold [OF dg st, of pp]
  from Suc.prems(1) have run: "inet_aton_loop pp (c # cs) = Some v" by (simp only: cp)
  show ?case
  proof (cases "endp \<noteq> [] \<and> hd endp = CHR ''.''")
    case True
    then obtain cp' where e: "endp = CHR ''.'' # cp'" by (cases endp) auto
    from run have a: "length pp \<le> 2 \<and> ul \<le> 255 \<and> inet_aton_loop (pp @ [ul]) cp' = Some v"
      unfolding unf e by (simp split: if_splits)
    have "n = 3 - length (pp @ [ul])" using Suc.hyps(2) by simp
    moreover have "length (pp @ [ul]) \<le> 3" using a by simp
    ultimately have "inet_notation_from (length (pp @ [ul])) cp'"
      using a by (intro Suc.hyps(1)) simp_all
    then have "inet_notation_from (Suc (length pp)) cp'" by simp
    from notation_dot [OF p(2,3) _ this] a p(1) e cp
    show ?thesis by simp
  next
    case False
    with run have "(endp = [] \<or> isspace (hd endp)) \<and> ul \<le> inet_aton_max (length pp)"
      unfolding unf by (cases endp) (simp_all split: if_splits)
    with notation_last [OF p(2,3) _ Suc.prems(2), of endp] p(1) cp
    show ?thesis by simp
  qed
qed


text \<open>Conversely, every text in the notation is read by \<^verbatim>\<open>inet_aton\<close>, so the notation
  is exactly what it accepts.\<close>

lemma strto_digits_all:
  assumes "b = 8 \<or> b = 10 \<or> b = 16" and "list_all (in_base b) q"
      and "rest = [] \<or> \<not> in_base b (hd rest)"
  shows "strto_digits b acc (q @ rest) = (base_value b acc q, rest)"
  using assms(2)
proof (induction q arbitrary: acc)
  case Nil
  show ?case
  proof (cases rest)
    case Nil
    then show ?thesis by (simp add: base_value_def)
  next
    case (Cons r rs)
    with assms(1,3) show ?thesis by (simp add: digit_of_in_base base_value_def)
  qed
next
  case (Cons c q)
  then have "strto_digits b (acc * b + digit_value c) (q @ rest) =
               (base_value b (acc * b + digit_value c) q, rest)"
    by simp
  with Cons.prems assms(1) show ?case
    by (simp add: digit_of_in_base base_value_def)
qed

lemma stop_not_in_base:
  assumes "rest = [] \<or> hd rest = CHR ''.'' \<or> isspace (hd rest)"
  shows "rest = [] \<or> \<not> in_base b (hd rest)"
  using assms in_base_plain [of b "hd rest"] by auto

lemma in_base_10_isdigit: "in_base 10 c \<Longrightarrow> isdigit c"
  by (auto simp: in_base_def isdigit_def Let_def)

lemma c_numeral_strtoul0:
  assumes "c_numeral p = Some v" and "rest = [] \<or> hd rest = CHR ''.'' \<or> isspace (hd rest)"
  shows "\<exists>c cs. p @ rest = c # cs \<and> isdigit c \<and> strtoul0 (c # cs) = (v, rest)"
proof -
  from assms(1) obtain c cs where p: "p = c # cs"
    by (cases p) (simp_all add: c_numeral_def)
  note stop = stop_not_in_base [OF assms(2)]
  have d0: "isdigit CHR ''0''" by (simp add: isdigit_def)
  show ?thesis
  proof (cases "c = CHR ''0''")
    case False
    with assms(1) p have dec: "list_all (in_base 10) (c # cs)" and v: "v = base_value 10 0 (c # cs)"
      by (simp_all add: c_numeral_def split: if_splits)
    from dec have dg: "isdigit c" by (simp add: in_base_10_isdigit)
    from False have nh: "\<not> hex_prefix ((c # cs) @ rest)"
      by (simp add: hex_prefix_def split: list.splits)
    have "strto_digits 10 0 ((c # cs) @ rest) = (v, rest)"
      unfolding v by (rule strto_digits_all [OF _ dec stop]) simp
    with nh False have "strtoul0 ((c # cs) @ rest) = (v, rest)"
      by (simp add: strtoul0_def del: strto_digits.simps)
    with dg p show ?thesis by simp
  next
    case True
    note c0 = this
    show ?thesis
    proof (cases "\<exists>x hs. cs = x # hs \<and> (x = CHR ''x'' \<or> x = CHR ''X'') \<and> hs \<noteq> [] \<and>
                     list_all (in_base 16) hs")
      case True
      then obtain x hs where cs: "cs = x # hs" and x: "x = CHR ''x'' \<or> x = CHR ''X''"
        and hs: "hs \<noteq> []" "list_all (in_base 16) hs" by blast
      with assms(1) p c0 have v: "v = base_value 16 0 hs"
        by (auto simp: c_numeral_def)
      from hs obtain h hs' where h: "hs = h # hs'" "in_base 16 h" by (cases hs) auto
      then have "digit_of 16 h \<noteq> None" by (simp add: digit_of_in_base)
      with x h have hp: "hex_prefix ((CHR ''0'' # x # hs) @ rest)"
        by (simp add: hex_prefix_def)
      have "strto_digits 16 0 (hs @ rest) = (v, rest)"
        unfolding v by (rule strto_digits_all [OF _ hs(2) stop]) simp
      with hp have "strtoul0 ((CHR ''0'' # x # hs) @ rest) = (v, rest)"
        by (simp add: strtoul0_def del: strto_digits.simps)
      with d0 p c0 cs show ?thesis by simp
    next
      case False
      with assms(1) p c0 have oct: "list_all (in_base 8) cs" and v: "v = base_value 8 0 cs"
        by (auto simp: c_numeral_def base_value_def split: list.splits if_splits)
      have nh: "\<not> hex_prefix ((CHR ''0'' # cs) @ rest)"
      proof (cases cs)
        case Nil
        with assms(2) show ?thesis
          by (cases rest) (auto simp: hex_prefix_def isspace_def split: list.splits)
      next
        case (Cons y ys)
        with oct have "in_base 8 y" by simp
        then have "y \<noteq> CHR ''x'' \<and> y \<noteq> CHR ''X''" using in_base_plain by blast
        with Cons show ?thesis by (simp add: hex_prefix_def split: list.splits)
      qed
      have o: "list_all (in_base 8) (CHR ''0'' # cs)" using oct in_base_0(1) by simp
      have "base_value 8 0 (CHR ''0'' # cs) = v"
        using v by (simp add: base_value_def in_base_0(2))
      with strto_digits_all [OF _ o stop, of 0]
      have "strto_digits 8 0 ((CHR ''0'' # cs) @ rest) = (v, rest)" by simp
      with nh have "strtoul0 ((CHR ''0'' # cs) @ rest) = (v, rest)"
        by (simp add: strtoul0_def del: strto_digits.simps)
      with d0 p c0 show ?thesis by simp
    qed
  qed
qed

lemma split_dots_ne: "split_dots s \<noteq> []"
  by (induction s) (auto split: list.splits)

lemma split_dots_single_inv: "split_dots s = [l] \<Longrightarrow> s = l \<and> CHR ''.'' \<notin> set l"
proof (induction s arbitrary: l)
  case Nil
  then show ?case by simp
next
  case (Cons c s)
  show ?case
  proof (cases "c = CHR ''.''")
    case True
    with Cons.prems split_dots_ne [of s] show ?thesis by simp
  next
    case False
    with Cons.prems split_dots_ne [of s] obtain l' where "split_dots s = [l']" "l = c # l'"
      by (auto split: list.splits)
    with Cons.IH [of l'] False show ?thesis by simp
  qed
qed

lemma split_dots_cons_inv:
  "split_dots s = p # q # ps \<Longrightarrow>
   \<exists>s'. s = p @ CHR ''.'' # s' \<and> split_dots s' = q # ps \<and> CHR ''.'' \<notin> set p"
proof (induction s arbitrary: p)
  case Nil
  then show ?case by simp
next
  case (Cons c s)
  show ?case
  proof (cases "c = CHR ''.''")
    case True
    with Cons.prems have "p = []" "split_dots s = q # ps" by simp_all
    with True show ?thesis by simp
  next
    case False
    with Cons.prems split_dots_ne [of s] obtain p' where
      p': "split_dots s = p' # q # ps" "p = c # p'"
      by (auto split: list.splits)
    from Cons.IH [OF p'(1)] obtain s' where
      "s = p' @ CHR ''.'' # s'" "split_dots s' = q # ps" "CHR ''.'' \<notin> set p'" by blast
    with p'(2) False show ?thesis by simp
  qed
qed

lemma text_cut:
  "\<exists>rest. cp = takeWhile (\<lambda>c. \<not> isspace c) cp @ rest \<and> (rest = [] \<or> isspace (hd rest))"
proof -
  let ?rest = "dropWhile (\<lambda>c. \<not> isspace c) cp"
  have "cp = takeWhile (\<lambda>c. \<not> isspace c) cp @ ?rest" by simp
  moreover have "?rest = [] \<or> isspace (hd ?rest)"
    using hd_dropWhile [of "\<lambda>c. \<not> isspace c" cp] by auto
  ultimately show ?thesis by blast
qed

lemma takeWhile_cut:
  assumes "\<forall>x\<in>set s. \<not> isspace x" and "rest = [] \<or> isspace (hd rest)"
  shows "takeWhile (\<lambda>c. \<not> isspace c) (s @ rest) = s"
proof -
  have "takeWhile (\<lambda>c. \<not> isspace c) rest = []" using assms(2) by (cases rest) auto
  with assms(1) show ?thesis by (simp add: takeWhile_plain)
qed

lemma inet_notation_loop:
  "length (split_dots (takeWhile (\<lambda>c. \<not> isspace c) cp)) = Suc n \<Longrightarrow>
   inet_notation_from (length pp) cp \<Longrightarrow> \<exists>v. inet_aton_loop pp cp = Some v"
proof (induction n arbitrary: cp pp)
  case 0
  let ?s = "takeWhile (\<lambda>c. \<not> isspace c) cp"
  from "0.prems"(1) obtain l where l: "split_dots ?s = [l]"
    by (cases "split_dots ?s") auto
  from split_dots_single_inv [OF l] have s: "?s = l" by simp
  from text_cut [of cp] s obtain rest where
    rest: "cp = l @ rest" "rest = [] \<or> isspace (hd rest)" by auto
  from "0.prems"(2) l obtain ul where
    ul: "c_numeral l = Some ul" "length pp \<le> 3" "ul < 256 ^ (4 - length pp)"
    by (auto simp: inet_notation_from_def numeral_below_def split: option.splits)
  from rest(2) have stop: "rest = [] \<or> hd rest = CHR ''.'' \<or> isspace (hd rest)" by blast
  from c_numeral_strtoul0 [OF ul(1) stop] obtain c cs where
    c: "l @ rest = c # cs" "isdigit c" "strtoul0 (c # cs) = (ul, rest)" by blast
  have m: "ul \<le> inet_aton_max (length pp)" using ul(2,3) by (simp add: max_below)
  then have "\<not> ul > 0xffffffff"
    using ul(2) by (auto simp: inet_aton_max_def split: if_splits)
  with m rest(2) have "inet_aton_loop pp (c # cs) = Some (inet_aton_word pp ul)"
    unfolding inet_aton_loop_unfold [OF c(2,3)]
    by (cases rest) (auto simp: isspace_def)
  with rest(1) c(1) show ?case by simp
next
  case (Suc n)
  let ?tw = "takeWhile (\<lambda>c. \<not> isspace c)"
  from Suc.prems(1) obtain p q ps where sp: "split_dots (?tw cp) = p # q # ps"
    by (cases "split_dots (?tw cp)"; cases "tl (split_dots (?tw cp))") auto
  from split_dots_cons_inv [OF sp] obtain s' where
    s': "?tw cp = p @ CHR ''.'' # s'" "split_dots s' = q # ps" "CHR ''.'' \<notin> set p" by blast
  from text_cut [of cp] s'(1) obtain rest where
    rest: "cp = p @ CHR ''.'' # s' @ rest" "rest = [] \<or> isspace (hd rest)" by auto
  have plain: "\<forall>x\<in>set (p @ CHR ''.'' # s'). \<not> isspace x"
    using set_takeWhileD [of _ "\<lambda>c. \<not> isspace c" cp] unfolding s'(1) by blast
  then have tw': "?tw (s' @ rest) = s'"
    using rest(2) by (intro takeWhile_cut) simp_all
  obtain l fs where r: "rev (q # ps) = l # fs"
    by (cases "rev (q # ps)") auto
  then have rv: "rev (split_dots (?tw cp)) = l # (fs @ [p])"
    unfolding sp by simp
  from Suc.prems(2) have
    c: "length pp + length (fs @ [p]) \<le> 3" "list_all (numeral_below 256) (fs @ [p])"
       "numeral_below (256 ^ (4 - (length pp + length (fs @ [p])))) l"
    unfolding inet_notation_from_def rv by simp_all
  then obtain ul where ul: "c_numeral p = Some ul" "ul < 256"
    by (auto simp: numeral_below_def split: option.splits)
  have nx: "inet_notation_from (length (pp @ [ul])) (s' @ rest)"
    using c r unfolding inet_notation_from_def tw' s'(2) by simp
  have "length (split_dots (?tw (s' @ rest))) = Suc n"
    using Suc.prems(1) unfolding tw' s'(2) sp by simp
  from Suc.IH [OF this nx] obtain v where v: "inet_aton_loop (pp @ [ul]) (s' @ rest) = Some v"
    by blast
  have stop: "CHR ''.'' # s' @ rest = [] \<or> hd (CHR ''.'' # s' @ rest) = CHR ''.'' \<or>
              isspace (hd (CHR ''.'' # s' @ rest))" by simp
  from c_numeral_strtoul0 [OF ul(1) stop] obtain d ds where
    d: "p @ CHR ''.'' # s' @ rest = d # ds" "isdigit d"
       "strtoul0 (d # ds) = (ul, CHR ''.'' # s' @ rest)" by blast
  have "inet_aton_loop pp (d # ds) = Some v"
    unfolding inet_aton_loop_unfold [OF d(2,3)] using c(1) ul(2) v by simp
  with rest(1) d(1) show ?case by auto
qed

lemma inet_notation_iff: "inet_notation cp \<longleftrightarrow> inet_aton_loop [] cp \<noteq> None"
proof
  assume n: "inet_notation cp"
  obtain k where "length (split_dots (takeWhile (\<lambda>c. \<not> isspace c) cp)) = Suc k"
    using split_dots_ne [of "takeWhile (\<lambda>c. \<not> isspace c) cp"]
    by (cases "split_dots (takeWhile (\<lambda>c. \<not> isspace c) cp)") auto
  from inet_notation_loop [OF this, of "[]"] n show "inet_aton_loop [] cp \<noteq> None"
    by (auto simp: inet_notation_def)
next
  assume "inet_aton_loop [] cp \<noteq> None"
  then obtain v where "inet_aton_loop [] cp = Some v" by auto
  from inet_aton_loop_notation [OF this] show "inet_notation cp"
    by (simp add: inet_notation_def)
qed


lemma find_delimiter_last:
  "k \<le> length ys \<Longrightarrow> CHR '':'' \<notin> set ys \<Longrightarrow>
   find_delimiter (xs @ CHR '':'' # ys) (Suc (length xs + k)) = Some (length xs)"
proof (induction k)
  case 0
  show ?case by simp
next
  case (Suc k)
  from Suc.prems have "k < length ys" by simp
  then have "ys ! k \<in> set ys" by (rule nth_mem)
  with Suc.prems(2) have ne: "ys ! k \<noteq> CHR '':''" by metis
  have "(xs @ CHR '':'' # ys) ! Suc (length xs + k) = ys ! k"
    by (simp add: nth_append)
  with ne Suc show ?case by simp
qed

lemma find_delimiter_split:
  assumes "CHR '':'' \<notin> set ys"
  shows "find_delimiter (xs @ CHR '':'' # ys) (length (xs @ CHR '':'' # ys)) = Some (length xs)"
  using find_delimiter_last [OF le_refl assms, of xs] by simp


lemma c_str_id': "NUL \<notin> set s \<Longrightarrow> c_str s = s"
  unfolding c_str_def by (induction s) auto

lemma dec_str_no_colon: "CHR '':'' \<notin> set (dec_str n)"
proof
  assume "CHR '':'' \<in> set (dec_str n)"
  then obtain d where "d < 10" "CHR '':'' = digit_char d"
    using dec_str_digits by blast
  with digit_char_neq(1) [of d] show False by simp
qed

lemma dec_str_no_NUL: "NUL \<notin> set (dec_str n)"
proof
  assume "NUL \<in> set (dec_str n)"
  then obtain d where "d < 10" "NUL = digit_char d"
    using dec_str_digits by blast
  with digit_char_neq(2) [of d] show False by simp
qed


lemma strtol10_unsigned:
  assumes "dropWhile isspace (c # r) = c # r" and "c \<noteq> CHR ''-''" and "c \<noteq> CHR ''+''"
  shows "strtol10 (c # r) = min LONG_MAX (int (fst (strto_digits 10 0 (c # r))))"
  using assms unfolding strtol10_def Let_def by (simp del: dropWhile.simps strto_digits.simps)

lemma strtol10_dec_str:
  assumes "n < 2 ^ 63"
  shows "strtol10 (dec_str n) = int n"
proof -
  obtain d ds where d: "dec_str n = digit_char d # ds" "d < 10"
    using dec_str_head by blast
  have s: "strto_digits 10 0 (dec_str n) = (n, [])"
    using strto_digits_dec_str_stop [of "[]" n] by simp
  have dw: "dropWhile isspace (digit_char d # ds) = digit_char d # ds"
    using digit_char_neq(6) [OF d(2)] by simp
  have "strtol10 (digit_char d # ds) =
          min LONG_MAX (int (fst (strto_digits 10 0 (digit_char d # ds))))"
    using dw digit_char_neq(4,5) [OF d(2)] by (rule strtol10_unsigned)
  then have "strtol10 (dec_str n) = min LONG_MAX (int (fst (strto_digits 10 0 (dec_str n))))"
    by (simp only: d(1))
  also have "\<dots> = min LONG_MAX (int n)" by (simp only: s fst_conv)
  also have "\<dots> = int n" using assms by (simp add: LONG_MAX_def)
  finally show ?thesis .
qed

lemma ucast_atoi: "(ucast (word_of_int (int n) :: 32 word) :: 16 word) = of_nat n"
proof -
  have "(ucast (of_nat n :: 32 word) :: 16 word) = of_nat (take_bit 32 n)"
    by (simp add: unsigned_of_nat)
  also have "\<dots> = of_nat n"
    by (simp add: word_of_nat_eq_iff)
  finally show ?thesis by simp
qed



section \<open>The raw endpoint codec: round trip and rejection\<close>


lemma resolve_raw_address_split:
  assumes "CHR '':'' \<notin> set port_str"
  shows "resolve_raw_address (addr_str @ '':'' @ port_str) e =
     (let e0 = e\<lparr>raw_address := \<lparr>sin_family = AF_UNSPEC, sin_port = 0, sin_addr = 0\<rparr>\<rparr>;
          port = (ucast (atoi (c_str port_str)) :: 16 word)
      in if port = 0 then (Fail EINVAL, e0)
         else (if inet_addr (c_str addr_str) = INADDR_NONE then Fail EINVAL else Ok,
               e\<lparr>raw_address := \<lparr>sin_family = AF_INET, sin_port = htons port,
                                   sin_addr = inet_addr (c_str addr_str)\<rparr>\<rparr>))"
proof -
  have "find_delimiter (addr_str @ CHR '':'' # port_str) (length (addr_str @ CHR '':'' # port_str))
          = Some (length addr_str)"
    using assms by (rule find_delimiter_split)
  then show ?thesis
    by (simp add: resolve_raw_address_def Let_def)
qed








text \<open>
  C10, as amended (raw port parsing wraps modulo \<open>2^16\<close>). For a port text that is the
  decimal numeral of \<open>n\<close> with \<open>n < 2^63\<close> (the range in which \<^verbatim>\<open>strtol\<close> does not
  saturate), behind the last colon: the parse is rejected when \<open>n mod 65536 = 0\<close>;
  otherwise the stored port is \<open>n mod 65536\<close> and the parse succeeds exactly when the
  host part is an address for \<^verbatim>\<open>inet_addr\<close>.
\<close>

theorem raw_port_wraps:
  assumes "n < 2 ^ 63"
  shows "resolve_raw_address (host @ '':'' @ dec_str n) e =
           (if n mod 65536 = 0
            then (Fail EINVAL,
                  e\<lparr>raw_address := \<lparr>sin_family = AF_UNSPEC, sin_port = 0, sin_addr = 0\<rparr>\<rparr>)
            else (if inet_addr (c_str host) = INADDR_NONE then Fail EINVAL else Ok,
                  e\<lparr>raw_address := \<lparr>sin_family = AF_INET,
                                      sin_port = htons (of_nat (n mod 65536)),
                                      sin_addr = inet_addr (c_str host)\<rparr>\<rparr>))"
proof -
  have cs: "c_str (dec_str n) = dec_str n"
    using dec_str_no_NUL by (rule c_str_id')
  have "atoi (dec_str n) = word_of_int (int n)"
    using assms by (simp add: atoi_def strtol10_dec_str)
  then have port: "(ucast (atoi (dec_str n)) :: 16 word) = of_nat n"
    by (simp only: ucast_atoi)
  have m: "(of_nat (n mod 65536) :: 16 word) = of_nat n"
    by (simp add: word_of_nat_eq_iff take_bit_eq_mod)
  have z: "(of_nat n :: 16 word) = 0 \<longleftrightarrow> n mod 65536 = 0"
    by (simp add: word_of_nat_eq_0_iff mod_eq_0_iff_dvd)
  show ?thesis
    by (simp only: resolve_raw_address_split [OF dec_str_no_colon] cs port m z Let_def)
qed

theorem raw_port_wraps_witness:
  "(65537 :: nat) < 2 ^ 63 \<and> (65536 :: nat) < 2 ^ 63 \<and>
   resolve_raw_address ''1.2.3.4:65537'' (example_engine True None) =
     (Ok, (example_engine True None)
            \<lparr>raw_address := \<lparr>sin_family = AF_INET, sin_port = htons 1, sin_addr = 0x01020304\<rparr>\<rparr>) \<and>
   fst (resolve_raw_address ''1.2.3.4:65536'' (example_engine True None)) = Fail EINVAL"
proof -
  have h1: "(65537 :: nat) < 2 ^ 63" and h2: "(65536 :: nat) < 2 ^ 63" by simp_all
  have d1: "dec_str 65537 = ''65537''" and d2: "dec_str 65536 = ''65536''"
    by (simp_all add: dec_str.simps digit_char_def char_of_eq_iff)
  have a: "inet_addr (c_str ''1.2.3.4'') = 0x01020304"
    by (simp add: inet_addr_def c_str_def NUL_def inet_aton_loop.simps isdigit_def strtoul0_def
        hex_prefix_def digit_of_def Let_def inet_aton_max_def inet_aton_word_def isspace_def)
  from raw_port_wraps [OF h1, of "''1.2.3.4''" "example_engine True None"]
       raw_port_wraps [OF h2, of "''1.2.3.4''" "example_engine True None"]
  show ?thesis
    by (simp add: d1 d2 a INADDR_NONE_def)
qed

text \<open>
  C10 as stated fails for large numerals: the port text \<^verbatim>\<open>9223372036854775808\<close> is
  \<open>2^63\<close>, a multiple of 65536, yet the parse succeeds, with port 65535, because
  \<^verbatim>\<open>strtol\<close> stops at \<^verbatim>\<open>LONG_MAX\<close>.
\<close>

theorem raw_port_saturates:
  "fst (resolve_raw_address ''1.2.3.4:9223372036854775808'' (example_engine True None)) = Ok \<and>
   sin_port (raw_address (snd (resolve_raw_address ''1.2.3.4:9223372036854775808''
                                  (example_engine True None)))) = htons 65535 \<and>
   (9223372036854775808 :: nat) mod 65536 = 0"
  by (simp add: resolve_raw_address_def Let_def atoi_def c_str_def NUL_def strtol10_def
      isspace_def digit_of_def LONG_MAX_def inet_addr_def inet_aton_loop.simps isdigit_def
      strtoul0_def hex_prefix_def inet_aton_max_def inet_aton_word_def INADDR_NONE_def htons_def)

end
